theory Spec2Isabelle
  imports Main
begin

text \<open>
  An embedding of the reference checker of \<open>doi_checker.py\<close>: the segmentation of a
  references section (\<open>PDFReferenceExtractor.parse_references\<close>), the extraction of the
  fields of one entry (\<open>_parse_reference_details\<close>, \<open>_extract_authors_and_title\<close>), and
  the validation of a reference (\<open>URLValidator.check_reference\<close> with the content match
  and the search fallback). Definitions keep the names of the source.
\<close>

section \<open>Characters and Python string primitives\<close>

text \<open>
  Python strings are sequences of code points. The model works on \<open>string\<close>, whose
  characters are the code points 0 to 255; the character classes below are the ones
  Python's \<open>str\<close> methods and the \<open>re\<close> module (on \<open>str\<close> patterns) use, restricted to
  that range.
\<close>

definition is_digit :: "char \<Rightarrow> bool" where
  \<comment> \<open>\<open>\d\<close>\<close>
  "is_digit c = (c \<in> set ''0123456789'')"

definition is_upper :: "char \<Rightarrow> bool" where
  \<comment> \<open>\<open>[A-Z]\<close>\<close>
  "is_upper c = (c \<in> set ''ABCDEFGHIJKLMNOPQRSTUVWXYZ'')"

definition is_lower :: "char \<Rightarrow> bool" where
  \<comment> \<open>\<open>[a-z]\<close>\<close>
  "is_lower c = (c \<in> set ''abcdefghijklmnopqrstuvwxyz'')"

definition is_space :: "char \<Rightarrow> bool" where
  \<comment> \<open>\<open>\s\<close> and \<open>str.isspace\<close>: TAB, LF, VT, FF, CR, FS, GS, RS, US, space, NEL, NBSP\<close>
  "is_space c = ((of_char c :: nat) \<in> set [9, 10, 11, 12, 13, 28, 29, 30, 31, 32, 133, 160])"

definition is_word :: "char \<Rightarrow> bool" where
  \<comment> \<open>\<open>\w\<close>: alphanumeric code points and the underscore\<close>
  "is_word c =
     (is_digit c \<or> is_upper c \<or> is_lower c \<or> c = CHR ''_'' \<or>
      (let n = (of_char c :: nat)
       in n \<in> set [170, 178, 179, 181, 185, 186, 188, 189, 190] \<or>
          (192 \<le> n \<and> n \<le> 214) \<or> (216 \<le> n \<and> n \<le> 246) \<or> 248 \<le> n))"

definition strip :: "string \<Rightarrow> string" where
  \<comment> \<open>\<open>s.strip()\<close>\<close>
  "strip s = rev (dropWhile is_space (rev (dropWhile is_space s)))"

definition rstrip_chars :: "string \<Rightarrow> string \<Rightarrow> string" where
  \<comment> \<open>\<open>s.rstrip(chars)\<close>\<close>
  "rstrip_chars chars s = rev (dropWhile (\<lambda>c. c \<in> set chars) (rev s))"

definition split1_last :: "char \<Rightarrow> string \<Rightarrow> string" where
  \<comment> \<open>\<open>s.split(sep, 1)[-1]\<close>: the text after the first separator, or all of \<open>s\<close>\<close>
  "split1_last sep s =
     (if sep \<in> set s then tl (dropWhile (\<lambda>c. c \<noteq> sep) s) else s)"

section \<open>Regular-expression matching\<close>

text \<open>
  A pattern is modelled by a function that tries to match it at the start of the
  remaining text, given the character before that position (for \<open>\b\<close>). It returns the
  captured groups and the text left after the match. Every pattern of the program
  consumes at least one character.
\<close>

type_synonym matcher = "char option \<Rightarrow> string \<Rightarrow> (string list \<times> string) option"

definition matched :: "string \<Rightarrow> string \<Rightarrow> string" where
  \<comment> \<open>the text consumed from \<open>s\<close> when \<open>r\<close> is what is left\<close>
  "matched s r = take (length s - length r) s"

function finditer :: "matcher \<Rightarrow> char option \<Rightarrow> string \<Rightarrow> string
    \<Rightarrow> (string \<times> string \<times> string list) list \<times> string" where
  "finditer m prev acc [] = ([], rev acc)"
| "finditer m prev acc (c # cs) =
     (case m prev (c # cs) of
        None \<Rightarrow> finditer m (Some c) (c # acc) cs
      | Some (gs, r) \<Rightarrow>
          if length r \<le> length cs then
            (let mt = matched (c # cs) r;
                 (ms, rest) = finditer m (Some (last mt)) [] r
             in ((rev acc, mt, gs) # ms, rest))
          else finditer m (Some c) (c # acc) cs)"
  by pat_completeness auto
termination
  by (relation "measure (\<lambda>(m, prev, acc, s). length s)") auto

text \<open>
  \<open>finditer m None [] s\<close> scans \<open>s\<close> from the left for non-overlapping matches, as
  \<open>re.finditer\<close> does: each entry holds the text between the previous match and this
  one, the matched text and the groups; the second component is the text after the
  last match.
\<close>

definition re_search :: "matcher \<Rightarrow> string \<Rightarrow> (string \<times> string list) option" where
  \<comment> \<open>\<open>re.search\<close>: the leftmost match, as \<open>(group(0), groups)\<close>\<close>
  "re_search m s =
     (case fst (finditer m None [] s) of
        [] \<Rightarrow> None
      | (_, mt, gs) # _ \<Rightarrow> Some (mt, gs))"

definition re_findall0 :: "matcher \<Rightarrow> string \<Rightarrow> string list" where
  \<comment> \<open>\<open>re.findall\<close> for a pattern without groups: the matched texts\<close>
  "re_findall0 m s = map (\<lambda>(_, mt, _). mt) (fst (finditer m None [] s))"

definition re_findall1 :: "matcher \<Rightarrow> string \<Rightarrow> string list" where
  \<comment> \<open>\<open>re.findall\<close> for a pattern with one group: the text of that group\<close>
  "re_findall1 m s = map (\<lambda>(_, _, gs). concat (take 1 gs)) (fst (finditer m None [] s))"

definition re_sub_empty :: "matcher \<Rightarrow> string \<Rightarrow> string" where
  \<comment> \<open>\<open>re.sub(pattern, '', s)\<close>\<close>
  "re_sub_empty m s =
     (let (ms, rest) = finditer m None [] s
      in concat (map (\<lambda>(pre, _, _). pre) ms) @ rest)"

definition re_split :: "matcher \<Rightarrow> string \<Rightarrow> string list" where
  \<comment> \<open>\<open>re.split\<close>: the texts between matches, each followed by the match's groups\<close>
  "re_split m s =
     (let (ms, rest) = finditer m None [] s
      in concat (map (\<lambda>(pre, _, gs). pre # gs) ms) @ [rest])"

subsection \<open>The patterns of field extraction\<close>

definition word_boundary :: "char option \<Rightarrow> char option \<Rightarrow> bool" where
  \<comment> \<open>\<open>\b\<close> between two neighbouring positions (\<open>None\<close> at either end of the text)\<close>
  "word_boundary a b =
     ((case a of None \<Rightarrow> False | Some c \<Rightarrow> is_word c) \<noteq>
      (case b of None \<Rightarrow> False | Some c \<Rightarrow> is_word c))"

definition year_pattern :: matcher where
  \<comment> \<open>\<open>\b(19|20)\d{2}\b\<close>\<close>
  "year_pattern prev s =
     (case s of
        c1 # c2 # c3 # c4 # r \<Rightarrow>
          if word_boundary prev (Some c1)
             \<and> ([c1, c2] = ''19'' \<or> [c1, c2] = ''20'')
             \<and> is_digit c3 \<and> is_digit c4
             \<and> word_boundary (Some c4) (case r of [] \<Rightarrow> None | c # _ \<Rightarrow> Some c)
          then Some ([[c1, c2]], r) else None
      | _ \<Rightarrow> None)"

function dot_groups :: "string \<Rightarrow> string" where
  \<comment> \<open>\<open>(?:\.\d+)*\<close>: the text left after the dotted digit groups\<close>
  "dot_groups s =
     (case s of
        c # d # r \<Rightarrow>
          if c = CHR ''.'' \<and> is_digit d then dot_groups (dropWhile is_digit r) else s
      | _ \<Rightarrow> s)"
  by pat_completeness auto
termination
  by (relation "measure length") (auto simp: less_Suc_eq_le intro: le_trans [OF length_dropWhile_le])

declare dot_groups.simps [simp del]

definition doi_suffix_char :: "char \<Rightarrow> bool" where
  \<comment> \<open>\<open>[^\s,;]\<close>\<close>
  "doi_suffix_char c = (\<not> is_space c \<and> c \<noteq> CHR '','' \<and> c \<noteq> CHR '';'')"

definition doi_pattern :: matcher where
  \<comment> \<open>\<open>(?:doi|DOI)[\s:]*10\.\d{4,}(?:\.\d+)*/[^\s,;]+\<close> under \<open>re.IGNORECASE\<close>.
      Each repetition is followed by a character outside its own class, so the greedy
      choice is the only one that can succeed.\<close>
  "doi_pattern prev s =
     (case s of
        a # b # c # r0 \<Rightarrow>
          if a \<in> set ''dD'' \<and> b \<in> set ''oO'' \<and> c \<in> set ''iI'' then
            (let r1 = dropWhile (\<lambda>x. is_space x \<or> x = CHR '':'') r0
             in if take 3 r1 = ''10.'' \<and> 4 \<le> length (takeWhile is_digit (drop 3 r1)) then
                  (case dot_groups (dropWhile is_digit (drop 3 r1)) of
                     x # y # r2 \<Rightarrow>
                       if x = CHR ''/'' \<and> doi_suffix_char y
                       then Some ([], dropWhile doi_suffix_char r2) else None
                   | _ \<Rightarrow> None)
                else None)
          else None
      | _ \<Rightarrow> None)"

definition url_body_char :: "char \<Rightarrow> bool" where
  \<comment> \<open>\<open>[^\s,\]\)]\<close>\<close>
  "url_body_char c = (\<not> is_space c \<and> c \<noteq> CHR '','' \<and> c \<noteq> CHR '']'' \<and> c \<noteq> CHR '')'')"

definition url_pattern :: matcher where
  \<comment> \<open>\<open>https?://[^\s,\]\)]+(?:[^\s\.,\]\)])\<close>. The greedy run takes every body
      character; the last class excludes the full stop as well, so the engine gives
      characters back until the match ends on a character that is not a full stop, with
      at least one character left for the run.\<close>
  "url_pattern prev s =
     (if take 4 s = ''http'' then
        (let r0 = drop 4 s;
             r1 = (if take 1 r0 = ''s'' then drop 1 r0 else r0)
         in if take 3 r1 = ''://'' then
              (let run = takeWhile url_body_char (drop 3 r1);
                   body = rstrip_chars ''.'' run
               in if 2 \<le> length body then Some ([], drop (length body) (drop 3 r1)) else None)
            else None)
      else None)"

definition strip_url_pattern :: matcher where
  \<comment> \<open>\<open>https?://[^\s]+\<close>\<close>
  "strip_url_pattern prev s =
     (if take 4 s = ''http'' then
        (let r0 = drop 4 s;
             r1 = (if take 1 r0 = ''s'' then drop 1 r0 else r0)
         in if take 3 r1 = ''://'' \<and> takeWhile (\<lambda>c. \<not> is_space c) (drop 3 r1) \<noteq> []
            then Some ([], dropWhile (\<lambda>c. \<not> is_space c) (drop 3 r1)) else None)
      else None)"

definition strip_doi_pattern :: matcher where
  \<comment> \<open>\<open>(?:doi|DOI)[\s:]*[10]\.\d{4,}(?:\.\d+)*\/[^\s]+\<close>, case-sensitive; the class
      \<open>[10]\<close> is one character\<close>
  "strip_doi_pattern prev s =
     (if take 3 s = ''doi'' \<or> take 3 s = ''DOI'' then
        (case dropWhile (\<lambda>x. is_space x \<or> x = CHR '':'') (drop 3 s) of
           a # b # r1 \<Rightarrow>
             if a \<in> set ''10'' \<and> b = CHR ''.'' \<and> 4 \<le> length (takeWhile is_digit r1) then
               (case dot_groups (dropWhile is_digit r1) of
                  x # y # r2 \<Rightarrow>
                    if x = CHR ''/'' \<and> \<not> is_space y
                    then Some ([], dropWhile (\<lambda>c. \<not> is_space c) r2) else None
                | _ \<Rightarrow> None)
             else None
         | _ \<Rightarrow> None)
      else None)"

definition quoted_pattern :: "char \<Rightarrow> matcher" where
  \<comment> \<open>\<open>"([^"]+)"\<close> and \<open>'([^']+)'\<close>, for the quote character \<open>q\<close>\<close>
  "quoted_pattern q prev s =
     (case s of
        [] \<Rightarrow> None
      | c # r \<Rightarrow>
          (let run = takeWhile (\<lambda>x. x \<noteq> q) r
           in if c = q \<and> run \<noteq> [] \<and> take 1 (drop (length run) r) = [q]
              then Some ([run], drop (Suc (length run)) r) else None))"

definition latex_quoted_pattern :: matcher where
  \<comment> \<open>two backticks, \<open>([^`]+)\<close>, two apostrophes. The group may hold apostrophes, so
      the greedy run is cut back to the last place where two apostrophes follow at
      least one character of the run.\<close>
  "latex_quoted_pattern prev s =
     (if take 2 s = [CHR 0x60, CHR 0x60] then
        (let r = drop 2 s;
             run = takeWhile (\<lambda>x. x \<noteq> CHR 0x60) r
         in case filter (\<lambda>k. take 2 (drop k run) = [CHR 0x27, CHR 0x27])
                   (rev [1 ..< length run]) of
              [] \<Rightarrow> None
            | k # _ \<Rightarrow> Some ([take k run], drop (k + 2) r))
      else None)"

definition comma_or_period :: matcher where
  \<comment> \<open>\<open>[,\.]\<close>\<close>
  "comma_or_period prev s =
     (case s of
        [] \<Rightarrow> None
      | c # r \<Rightarrow> if c = CHR '','' \<or> c = CHR ''.'' then Some ([], r) else None)"

definition initials_run :: "string \<Rightarrow> bool" where
  \<comment> \<open>\<open>re.match(r'^[A-Z]\s*\.\s*[A-Z]', part)\<close>\<close>
  "initials_run part =
     (case part of
        [] \<Rightarrow> False
      | c # r \<Rightarrow>
          is_upper c \<and>
          (case dropWhile is_space r of
             [] \<Rightarrow> False
           | d # r1 \<Rightarrow>
               d = CHR ''.'' \<and>
               (case dropWhile is_space r1 of [] \<Rightarrow> False | e # _ \<Rightarrow> is_upper e)))"

function more_name_words :: "string \<Rightarrow> string" where
  \<comment> \<open>\<open>(?:\s+[A-Z][a-z]+)*\<close>: the text left after the further capitalised words\<close>
  "more_name_words s =
     (case dropWhile is_space s of
        c # d # r \<Rightarrow>
          if takeWhile is_space s \<noteq> [] \<and> is_upper c \<and> is_lower d
          then more_name_words (dropWhile is_lower r) else s
      | _ \<Rightarrow> s)"
  by pat_completeness auto
termination
proof (relation "measure length", simp, goal_cases)
  case (1 s c list d r)
  have "length (dropWhile is_lower r) \<le> length r"
    by (rule length_dropWhile_le)
  moreover have "length (dropWhile is_space s) \<le> length s"
    by (rule length_dropWhile_le)
  ultimately show ?case using 1 by simp
qed

declare more_name_words.simps [simp del]

definition name_words :: "string \<Rightarrow> string option" where
  \<comment> \<open>\<open>[A-Z][a-z]+(?:\s+[A-Z][a-z]+)*\<close>\<close>
  "name_words s =
     (case s of
        c # d # r \<Rightarrow>
          if is_upper c \<and> is_lower d then Some (more_name_words (dropWhile is_lower r))
          else None
      | _ \<Rightarrow> None)"

function more_initials :: "string \<Rightarrow> string" where
  \<comment> \<open>\<open>(?:\s*[A-Z]\.)*\<close>\<close>
  "more_initials s =
     (case dropWhile is_space s of
        c # d # r \<Rightarrow> if is_upper c \<and> d = CHR ''.'' then more_initials r else s
      | _ \<Rightarrow> s)"
  by pat_completeness auto
termination
proof (relation "measure length", simp, goal_cases)
  case (1 s c list d r)
  have "length (dropWhile is_space s) \<le> length s"
    by (rule length_dropWhile_le)
  then show ?case using 1 by simp
qed

declare more_initials.simps [simp del]

definition initials :: "string \<Rightarrow> string option" where
  \<comment> \<open>\<open>[A-Z]\.(?:\s*[A-Z]\.)*\<close>\<close>
  "initials s =
     (case s of
        c # d # r \<Rightarrow> if is_upper c \<and> d = CHR ''.'' then Some (more_initials r) else None
      | _ \<Rightarrow> None)"

definition author_pattern :: "bool \<Rightarrow> matcher" where
  \<comment> \<open>with \<open>True\<close>: \<open>(name),\s*(initials)\<close>; with \<open>False\<close>: \<open>(name)\s+(initials)\<close>.
      A further name word starts with white space, a capital and a lower-case letter,
      where the rest of either pattern needs a comma or a capital and a full stop: the
      greedy choice is the only one that can succeed.\<close>
  "author_pattern with_comma prev s =
     (case name_words s of
        None \<Rightarrow> None
      | Some r1 \<Rightarrow>
          (let r2 = (if with_comma then drop 1 r1 else r1);
               r3 = dropWhile is_space r2
           in if (if with_comma then take 1 r1 = '','' else takeWhile is_space r1 \<noteq> []) then
                (case initials r3 of
                   None \<Rightarrow> None
                 | Some r4 \<Rightarrow> Some ([matched s r1, matched r3 r4], r4))
              else None))"

definition and_pattern :: matcher where
  \<comment> \<open>\<open>\s+and\s+|\s*&\s*\<close>\<close>
  "and_pattern prev s =
     (let r = dropWhile is_space s
      in if takeWhile is_space s \<noteq> [] \<and> take 3 r = ''and''
            \<and> takeWhile is_space (drop 3 r) \<noteq> []
         then Some ([], dropWhile is_space (drop 3 r))
         else if take 1 r = ''&'' then Some ([], dropWhile is_space (drop 1 r))
         else None)"

definition starts_with_name :: "string \<Rightarrow> bool" where
  \<comment> \<open>\<open>re.match(r'^[A-Z][a-z]+', part)\<close>\<close>
  "starts_with_name part =
     (case part of c # d # _ \<Rightarrow> is_upper c \<and> is_lower d | _ \<Rightarrow> False)"

fun py_find_from :: "string \<Rightarrow> string \<Rightarrow> nat \<Rightarrow> int" where
  "py_find_from sub [] i = (if sub = [] then int i else - 1)"
| "py_find_from sub (c # cs) i =
     (if take (length sub) (c # cs) = sub then int i else py_find_from sub cs (Suc i))"

definition py_find :: "string \<Rightarrow> string \<Rightarrow> int" where
  \<comment> \<open>\<open>s.find(sub)\<close>: the index of the first occurrence, or -1\<close>
  "py_find s sub = py_find_from sub s 0"

definition remove_first :: "string \<Rightarrow> string \<Rightarrow> string" where
  \<comment> \<open>\<open>s.replace(old, '', 1)\<close>\<close>
  "remove_first old s =
     (let i = py_find s old
      in if i < 0 then s else take (nat i) s @ drop (nat i + length old) s)"

subsection \<open>The patterns of segmentation\<close>

definition numbered_marker :: "string \<Rightarrow> string \<Rightarrow> bool \<Rightarrow> matcher" where
  \<comment> \<open>a line break, \<open>\s*\<close>, the opening text, \<open>(\d+)\<close>, the closing text, then \<open>\s+\<close>
      if \<open>need_space\<close> and \<open>\s*\<close> otherwise. White space, digits and the delimiters
      are disjoint, so the greedy choice is the only one that can succeed.\<close>
  "numbered_marker opening closing need_space prev s =
     (case s of
        [] \<Rightarrow> None
      | c # r \<Rightarrow>
          (let r1 = dropWhile is_space r;
               r2 = drop (length opening) r1;
               ds = takeWhile is_digit r2;
               r3 = dropWhile is_digit r2;
               r4 = drop (length closing) r3
           in if c = CHR 0x0A \<and> take (length opening) r1 = opening \<and> ds \<noteq> []
                 \<and> take (length closing) r3 = closing
                 \<and> (if need_space then takeWhile is_space r4 \<noteq> [] else True)
              then Some ([ds], dropWhile is_space r4) else None))"

definition ref_patterns :: "matcher list" where
  \<comment> \<open>\<open>\n\s*\[(\d+)\]\s*\<close>, \<open>\n\s*(\d+)\.\s+\<close>, \<open>\n\s*\((\d+)\)\s*\<close>\<close>
  "ref_patterns =
     [numbered_marker ''['' '']'' False,
      numbered_marker [] ''.'' True,
      numbered_marker ''('' '')'' False]"

definition author_line_comma :: "string \<Rightarrow> bool" where
  \<comment> \<open>\<open>re.match(r'^[A-Z][a-z]+,\s*[A-Z]', line)\<close>\<close>
  "author_line_comma line =
     (case line of
        c # d # r \<Rightarrow>
          is_upper c \<and> is_lower d \<and>
          (case dropWhile is_lower r of
             [] \<Rightarrow> False
           | e # r1 \<Rightarrow>
               e = CHR '','' \<and>
               (case dropWhile is_space r1 of [] \<Rightarrow> False | f # _ \<Rightarrow> is_upper f))
      | _ \<Rightarrow> False)"

definition author_line_space :: "string \<Rightarrow> bool" where
  \<comment> \<open>\<open>re.match(r'^[A-Z][a-z]+\s+[A-Z]', line)\<close>\<close>
  "author_line_space line =
     (case line of
        c # d # r \<Rightarrow>
          is_upper c \<and> is_lower d \<and>
          (let r1 = dropWhile is_lower r
           in takeWhile is_space r1 \<noteq> [] \<and>
              (case dropWhile is_space r1 of [] \<Rightarrow> False | f # _ \<Rightarrow> is_upper f))
      | _ \<Rightarrow> False)"

fun py_split :: "char \<Rightarrow> string \<Rightarrow> string list" where
  \<comment> \<open>\<open>s.split(sep)\<close> for a one-character separator\<close>
  "py_split sep [] = [[]]"
| "py_split sep (c # cs) =
     (if c = sep then [] # py_split sep cs
      else (case py_split sep cs of [] \<Rightarrow> [[c]] | x # xs \<Rightarrow> (c # x) # xs))"

section \<open>The data model\<close>

record content_match =
  title_match :: int
  authors_found :: nat
  author_matches :: "(string \<times> string) list"

record match_result = content_match +
  mr_url :: string
  mr_final_url :: string

record inaccessible_url =
  iu_url :: string
  iu_status_code :: "int option"
  iu_reason :: string

record check_results =
  accessible_urls :: "string list"
  inaccessible_urls :: "inaccessible_url list"
  match_results :: "match_result list"

record scored_result =
  sr_rank :: nat
  sr_url :: string
  sr_title :: string
  sr_snippet :: string
  sr_match_score :: int

datatype search_report =
    Not_Performed "string option"
  | Performed string "scored_result list" "scored_result option"
  | Search_Error string

text \<open>
  \<open>Not_Performed reason\<close> is \<open>{'search_performed': False}\<close> with the optional
  \<open>'reason'\<close>; \<open>Performed query results best_match\<close> is the dictionary of a search
  that ran; \<open>Search_Error e\<close> is \<open>{'search_performed': True, 'error': e}\<close>.
\<close>

record reference =
  raw_text :: string
  authors :: "string list"
  title :: string
  doi :: "string option"
  urls :: "string list"
  year :: "string option"
  is_accessible :: bool
  url_check_results :: "check_results option"
  search_results :: "search_report option"

definition Reference :: "string \<Rightarrow> reference" where
  \<comment> \<open>\<open>Reference.__init__\<close>; the empty dictionary of \<open>url_check_results\<close> is \<open>None\<close>\<close>
  "Reference text =
     \<lparr>raw_text = text, authors = [], title = [], doi = None, urls = [], year = None,
      is_accessible = False, url_check_results = None, search_results = None\<rparr>"

section \<open>Field extraction\<close>

definition extract_doi :: "reference \<Rightarrow> reference" where
  "extract_doi ref =
     (case re_search doi_pattern (raw_text ref) of
        None \<Rightarrow> ref
      | Some (g0, _) \<Rightarrow>
          (let d = rstrip_chars ''.,;'' (strip (split1_last CHR '':'' g0))
           in ref\<lparr>doi := Some d, urls := urls ref @ [''https://doi.org/'' @ d]\<rparr>))"

fun add_urls :: "string list \<Rightarrow> string list \<Rightarrow> string list" where
  \<comment> \<open>the loop over the literal URLs: strip, then append unless already present\<close>
  "add_urls acc [] = acc"
| "add_urls acc (u # us) =
     (let url = rstrip_chars ''.,;)'' u
      in add_urls (if url \<in> set acc then acc else acc @ [url]) us)"

definition extract_urls :: "reference \<Rightarrow> reference" where
  "extract_urls ref =
     ref\<lparr>urls := add_urls (urls ref) (re_findall0 url_pattern (raw_text ref))\<rparr>"

definition extract_year :: "reference \<Rightarrow> reference" where
  "extract_year ref =
     (case re_findall1 year_pattern (raw_text ref) of
        [] \<Rightarrow> ref
      | y # _ \<Rightarrow> ref\<lparr>year := Some y\<rparr>)"

definition title_patterns :: "matcher list" where
  "title_patterns =
     [quoted_pattern (CHR 0x22), quoted_pattern (CHR 0x27), latex_quoted_pattern]"

fun quoted_title :: "matcher list \<Rightarrow> reference \<Rightarrow> string \<Rightarrow> reference \<times> string" where
  \<comment> \<open>the loop over \<open>title_patterns\<close>: at the first pattern found, set the title and
      remove the quotation from the text\<close>
  "quoted_title [] ref clean_text = (ref, clean_text)"
| "quoted_title (p # ps) ref clean_text =
     (case re_search p clean_text of
        None \<Rightarrow> quoted_title ps ref clean_text
      | Some (g0, gs) \<Rightarrow>
          (ref\<lparr>title := strip (concat (take 1 gs))\<rparr>, remove_first g0 clean_text))"

fun fallback_title :: "string list \<Rightarrow> reference \<Rightarrow> reference" where
  \<comment> \<open>the loop over the comma- and period-delimited parts\<close>
  "fallback_title [] ref = ref"
| "fallback_title (part # parts) ref =
     (let part = strip part
      in if 30 < length part \<and> \<not> initials_run part then ref\<lparr>title := part\<rparr>
         else fallback_title parts ref)"

fun add_authors :: "string list \<Rightarrow> (string \<times> string \<times> string list) list \<Rightarrow> string list" where
  \<comment> \<open>the loop over the matches of one author pattern\<close>
  "add_authors acc [] = acc"
| "add_authors acc ((_, _, gs) # ms) =
     (let author_name = concat (take 1 gs) @ '', '' @ concat (take 1 (drop 1 gs))
      in add_authors (if author_name \<in> set acc then acc else acc @ [author_name]) ms)"

fun add_and_parts :: "string list \<Rightarrow> string list \<Rightarrow> string list" where
  \<comment> \<open>the loop over the parts split at "and" and "&"\<close>
  "add_and_parts acc [] = acc"
| "add_and_parts acc (part # parts) =
     (let part = rstrip_chars '',.'' (strip part)
      in add_and_parts
           (if part \<noteq> [] \<and> 3 < length part \<and> part \<notin> set acc \<and> starts_with_name part
            then acc @ [part] else acc)
           parts)"

definition extract_authors_and_title :: "reference \<Rightarrow> reference" where
  "extract_authors_and_title ref0 =
     (let text = raw_text ref0;
          clean_text = re_sub_empty strip_url_pattern text;
          clean_text = re_sub_empty strip_doi_pattern clean_text;
          (ref, clean_text) = quoted_title title_patterns ref0 clean_text;
          ref = (if title ref = [] then fallback_title (re_split comma_or_period clean_text) ref
                 else ref);
          title_pos = (if title ref \<noteq> [] then py_find clean_text (title ref) else 0);
          author_text = (if title ref \<noteq> [] \<and> 0 < title_pos
                         then take (nat title_pos) clean_text else clean_text);
          authors1 = add_authors []
                       (fst (finditer (author_pattern True) None [] author_text));
          authors2 = add_authors authors1
                       (fst (finditer (author_pattern False) None [] author_text));
          authors3 = add_and_parts authors2 (re_split and_pattern author_text)
      in ref\<lparr>authors := take 10 authors3\<rparr>)"

definition parse_reference_details :: "reference \<Rightarrow> reference" where
  "parse_reference_details ref =
     extract_authors_and_title (extract_year (extract_urls (extract_doi ref)))"

section \<open>Segmentation\<close>

fun pair_texts :: "string list \<Rightarrow> string list \<Rightarrow> string list" where
  \<comment> \<open>the loop over \<open>range(0, len(parts), 2)\<close>: a number at \<open>i\<close>, its text at \<open>i+1\<close>\<close>
  "pair_texts split_refs (num # txt # parts) =
     pair_texts (if strip txt \<noteq> [] then split_refs @ [strip txt] else split_refs) parts"
| "pair_texts split_refs _ = split_refs"

definition split_with :: "matcher \<Rightarrow> string \<Rightarrow> string list \<Rightarrow> string list" where
  \<comment> \<open>the body of the loop over \<open>ref_patterns\<close> for a pattern that was found\<close>
  "split_with pattern refs_text split_refs =
     (case re_split pattern refs_text of
        [] \<Rightarrow> split_refs
      | first # parts \<Rightarrow>
          pair_texts
            (if strip first \<noteq> [] then split_refs @ [strip first] else split_refs) parts)"

fun numbered_split :: "matcher list \<Rightarrow> string \<Rightarrow> string list \<Rightarrow> string list" where
  \<comment> \<open>the loop over \<open>ref_patterns\<close>, which stops once \<open>split_refs\<close> is not empty\<close>
  "numbered_split [] refs_text split_refs = split_refs"
| "numbered_split (pattern # patterns) refs_text split_refs =
     (if re_search pattern refs_text \<noteq> None then
        (let split_refs = split_with pattern refs_text split_refs
         in if split_refs \<noteq> [] then split_refs
            else numbered_split patterns refs_text split_refs)
      else numbered_split patterns refs_text split_refs)"

fun line_split :: "string list \<Rightarrow> string list \<Rightarrow> string \<Rightarrow> string list" where
  \<comment> \<open>the loop over the lines, and the flush of \<open>current_ref\<close> after it\<close>
  "line_split [] split_refs current_ref =
     (if current_ref \<noteq> [] then split_refs @ [current_ref] else split_refs)"
| "line_split (line # lines) split_refs current_ref =
     (let line = strip line
      in if line = [] then
           (if current_ref \<noteq> [] then line_split lines (split_refs @ [current_ref]) []
            else line_split lines split_refs current_ref)
         else if current_ref \<noteq> [] \<and> (author_line_comma line \<or> author_line_space line) then
           line_split lines (split_refs @ [current_ref]) line
         else
           line_split lines split_refs
             (if current_ref \<noteq> [] then current_ref @ '' '' @ line else line))"

definition segment :: "string \<Rightarrow> string list" where
  \<comment> \<open>\<open>split_refs\<close> as \<open>parse_references\<close> has it before it builds the references\<close>
  "segment refs_text =
     (let split_refs = numbered_split ref_patterns refs_text []
      in if split_refs = [] then line_split (py_split (CHR 0x0A) refs_text) [] []
         else split_refs)"

definition parse_references :: "string \<Rightarrow> reference list" where
  "parse_references refs_text =
     map (\<lambda>ref_text. parse_reference_details (Reference ref_text))
       (filter (\<lambda>ref_text. 20 < length ref_text) (segment refs_text))"

section \<open>URL validation\<close>

text \<open>
  The collaborators are parameters. A GET is answered by an outcome that depends on
  the position of the request in the run and on the URL: a response, a \<open>Timeout\<close>,
  another \<open>RequestException\<close> with its description, or an exception outside that
  hierarchy (the HTTP library lets some through, such as the URL parser's
  \<open>LocationParseError\<close>), which no \<open>except\<close> clause of \<open>check_reference\<close> catches.
  \<open>time.sleep(self.delay)\<close> returns or raises (a negative delay is a \<open>ValueError\<close>)
  according to the delay alone, so its outcome is a field of the validator. The HTML
  parser gives the page text and the citation meta tags, or fails. The two fuzzy
  similarity functions are arbitrary. The progress output is not modelled.
\<close>

record soup =
  page_text :: string
  meta_title :: "string option option"
  meta_authors :: "string option list"

text \<open>
  \<open>meta_title\<close> is \<open>None\<close> without a \<open>citation_title\<close> tag and \<open>Some None\<close> for a tag
  without \<open>content\<close>; \<open>meta_authors\<close> holds the \<open>content\<close> of each \<open>citation_author\<close> tag.
\<close>

record response =
  status_code :: int
  url :: string
  content :: "soup option"

datatype outcome =
    Response response
  | Timeout
  | RequestException string
  | OtherException string

record fuzz =
  ratio :: "string \<Rightarrow> string \<Rightarrow> int"
  partial_ratio :: "string \<Rightarrow> string \<Rightarrow> int"

record search_hit =
  hit_title :: string
  hit_url :: string
  hit_snippet :: string

record validator =
  enable_search :: bool
  fz :: fuzz
  sleep :: "string option"
  get :: "nat \<Rightarrow> string \<Rightarrow> outcome"
  perform_search :: "string \<Rightarrow> search_hit list"

text \<open>
  \<open>sleep\<close> is \<open>None\<close> when \<open>time.sleep(self.delay)\<close> returns and holds the description
  of the exception when it raises. \<open>perform_search\<close> is \<open>_perform_search\<close>, which catches
  every exception of its own and returns a list.
\<close>

datatype py_error = IndexError | Raised string

text \<open>
  \<open>Raised d\<close> is an exception, of description \<open>d\<close>, that a collaborator raises and the
  caller does not expect.
\<close>

definition lower_char :: "char \<Rightarrow> char" where
  "lower_char c =
     (let n = (of_char c :: nat)
      in if (65 \<le> n \<and> n \<le> 90) \<or> (192 \<le> n \<and> n \<le> 214) \<or> (216 \<le> n \<and> n \<le> 222)
         then char_of (n + 32) else c)"

definition lower :: "string \<Rightarrow> string" where
  \<comment> \<open>\<open>s.lower()\<close>\<close>
  "lower s = map lower_char s"

definition contains :: "string \<Rightarrow> string \<Rightarrow> bool" where
  \<comment> \<open>\<open>sub in s\<close>\<close>
  "contains s sub = (0 \<le> py_find s sub)"

definition last_name_of :: "string \<Rightarrow> py_error + string" where
  \<comment> \<open>\<open>author.split(',')[0].strip() if ',' in author else author.split()[0]\<close>\<close>
  "last_name_of author =
     (if CHR '','' \<in> set author then Inr (strip (takeWhile (\<lambda>c. c \<noteq> CHR '','') author))
      else (case takeWhile (\<lambda>c. \<not> is_space c) (dropWhile is_space author) of
              [] \<Rightarrow> Inl IndexError
            | w \<Rightarrow> Inr w))"

definition author_matches_fn :: "fuzz \<Rightarrow> string \<Rightarrow> string \<Rightarrow> bool" where
  "author_matches_fn f ref_author found_author =
     (80 < ratio f (lower ref_author) (lower found_author))"

fun first_matching_author :: "fuzz \<Rightarrow> string \<Rightarrow> string list \<Rightarrow> string option" where
  \<comment> \<open>the inner loop over \<open>ref.authors\<close>, left at the first match\<close>
  "first_matching_author f author_name [] = None"
| "first_matching_author f author_name (ref_author # rest) =
     (if author_matches_fn f ref_author author_name then Some ref_author
      else first_matching_author f author_name rest)"

fun match_meta_authors :: "fuzz \<Rightarrow> string list \<Rightarrow> string option list \<Rightarrow> content_match
    \<Rightarrow> content_match" where
  "match_meta_authors f ref_authors [] result = result"
| "match_meta_authors f ref_authors (meta_author # rest) result =
     (let author_name = (case meta_author of None \<Rightarrow> [] | Some a \<Rightarrow> a)
      in match_meta_authors f ref_authors rest
           (case first_matching_author f author_name ref_authors of
              None \<Rightarrow> result
            | Some ref_author \<Rightarrow>
                result\<lparr>authors_found := authors_found result + 1,
                       author_matches := author_matches result @ [(ref_author, author_name)]\<rparr>))"

fun match_text_authors :: "string \<Rightarrow> string list \<Rightarrow> content_match \<Rightarrow> content_match" where
  \<comment> \<open>the loop over \<open>ref.authors\<close> on the page text; an \<open>IndexError\<close> ends the \<open>try\<close>
      block with the result as it is\<close>
  "match_text_authors text [] result = result"
| "match_text_authors text (author # rest) result =
     (case last_name_of author of
        Inl _ \<Rightarrow> result
      | Inr last_name \<Rightarrow>
          match_text_authors text rest
            (if contains (lower text) (lower last_name)
             then result\<lparr>authors_found := authors_found result + 1,
                         author_matches := author_matches result @ [(author, last_name)]\<rparr>
             else result))"

definition check_content_match :: "fuzz \<Rightarrow> response \<Rightarrow> reference \<Rightarrow> content_match" where
  "check_content_match f resp ref =
     (let result = \<lparr>title_match = 0, authors_found = 0, author_matches = []\<rparr>
      in case content resp of
           None \<Rightarrow> result
         | Some sp \<Rightarrow>
             (let result =
                    (if title ref \<noteq> [] then
                       (case meta_title sp of
                          Some (Some t) \<Rightarrow>
                            if t \<noteq> [] then
                              result\<lparr>title_match := partial_ratio f (lower (title ref)) (lower t)\<rparr>
                            else
                              result\<lparr>title_match :=
                                partial_ratio f (lower (title ref)) (lower (page_text sp))\<rparr>
                        | _ \<Rightarrow>
                            result\<lparr>title_match :=
                              partial_ratio f (lower (title ref)) (lower (page_text sp))\<rparr>)
                     else result)
              in if authors ref \<noteq> [] then
                   (if meta_authors sp \<noteq> []
                    then match_meta_authors f (authors ref) (meta_authors sp) result
                    else match_text_authors (page_text sp) (authors ref) result)
                 else result))"

subsection \<open>Search fallback\<close>

fun author_in_snippet :: "string \<Rightarrow> string list \<Rightarrow> py_error + bool" where
  \<comment> \<open>the loop over \<open>ref.authors[:3]\<close>, left at the first surname found\<close>
  "author_in_snippet snippet_text [] = Inr False"
| "author_in_snippet snippet_text (author # rest) =
     (case last_name_of author of
        Inl e \<Rightarrow> Inl e
      | Inr last_name \<Rightarrow>
          if contains snippet_text (lower last_name) then Inr True
          else author_in_snippet snippet_text rest)"

definition int_of_quotient :: "int \<Rightarrow> nat \<Rightarrow> int" where
  \<comment> \<open>\<open>int(a / n)\<close>: the quotient cut towards zero. The float division is exact
      enough for this wherever the similarity scores are within 0 and 100.\<close>
  "int_of_quotient a n = (if 0 \<le> a then a div int n else - ((- a) div int n))"

definition check_search_result_match :: "fuzz \<Rightarrow> search_hit \<Rightarrow> reference \<Rightarrow> py_error + int" where
  "check_search_result_match f search_result ref =
     (let scores = [];
          scores = (if title ref \<noteq> [] \<and> hit_title search_result \<noteq> []
                    then scores @ [partial_ratio f (lower (title ref))
                                     (lower (hit_title search_result)) * 2]
                    else scores);
          scores = (if title ref \<noteq> [] \<and> hit_snippet search_result \<noteq> []
                    then scores @ [partial_ratio f (lower (title ref))
                                     (lower (hit_snippet search_result))]
                    else scores)
      in case (if authors ref \<noteq> [] \<and> hit_snippet search_result \<noteq> []
               then author_in_snippet (lower (hit_snippet search_result)) (take 3 (authors ref))
               else Inr False) of
           Inl e \<Rightarrow> Inl e
         | Inr author_found \<Rightarrow>
             (let scores = (if author_found then scores @ [70] else scores);
                  scores = (case year ref of
                              None \<Rightarrow> scores
                            | Some y \<Rightarrow>
                                if y \<noteq> [] \<and> hit_snippet search_result \<noteq> []
                                   \<and> contains (hit_snippet search_result) y
                                then scores @ [50] else scores)
              in Inr (if scores \<noteq> [] then int_of_quotient (sum_list scores) (length scores)
                      else 0)))"

fun score_hits :: "fuzz \<Rightarrow> reference \<Rightarrow> nat \<Rightarrow> search_hit list \<Rightarrow> py_error + scored_result list"
  where
  \<comment> \<open>the loop over \<open>enumerate(search_results[:5], 1)\<close>\<close>
  "score_hits f ref i [] = Inr []"
| "score_hits f ref i (h # hs) =
     (case check_search_result_match f h ref of
        Inl e \<Rightarrow> Inl e
      | Inr score \<Rightarrow>
          (case score_hits f ref (Suc i) hs of
             Inl e \<Rightarrow> Inl e
           | Inr rest \<Rightarrow>
               Inr (\<lparr>sr_rank = i, sr_url = hit_url h, sr_title = hit_title h,
                     sr_snippet = hit_snippet h, sr_match_score = score\<rparr> # rest)))"

fun max_by_score :: "scored_result \<Rightarrow> scored_result list \<Rightarrow> scored_result" where
  \<comment> \<open>\<open>max(match_scores, key=...)\<close>: the first of the entries with the highest score\<close>
  "max_by_score best [] = best"
| "max_by_score best (x # xs) =
     max_by_score (if sr_match_score best < sr_match_score x then x else best) xs"

definition error_text :: "py_error \<Rightarrow> string" where
  \<comment> \<open>\<open>str(e)\<close>\<close>
  "error_text e = (case e of IndexError \<Rightarrow> ''list index out of range'' | Raised d \<Rightarrow> d)"

definition search_reference_online :: "validator \<Rightarrow> reference \<Rightarrow> search_report" where
  "search_reference_online v ref =
     (if \<not> enable_search v then Not_Performed None
      else
        (let query_parts = (if title ref \<noteq> [] then [take 100 (title ref)] else [])
               @ (case authors ref of [] \<Rightarrow> [] | a # _ \<Rightarrow> [a])
               @ (case year ref of None \<Rightarrow> [] | Some y \<Rightarrow> if y \<noteq> [] then [y] else [])
         in case query_parts of
              [] \<Rightarrow> Not_Performed (Some ''insufficient_info'')
            | q # qs \<Rightarrow>
                (let query = q @ concat (map (\<lambda>x. '' '' @ x) qs)
                 in case sleep v of
                      Some d \<Rightarrow> Search_Error (error_text (Raised d))
                    | None \<Rightarrow>
                        (let hits = perform_search v query
                         in if hits = [] then Performed query [] None
                            else
                              (case score_hits (fz v) ref 1 (take 5 hits) of
                                 Inl e \<Rightarrow> Search_Error (error_text e)
                               | Inr match_scores \<Rightarrow>
                                   Performed query match_scores
                                     (case match_scores of
                                        [] \<Rightarrow> None
                                      | x # xs \<Rightarrow> Some (max_by_score x xs)))))))"

text \<open>
  The sleeps of \<open>search_reference_online\<close> are inside its \<open>try\<close>: one that raises is
  reported as a search error. Those after each scored result return once the first
  one has.
\<close>

subsection \<open>Checking one reference\<close>

function str_nat :: "nat \<Rightarrow> string" where
  "str_nat n =
     (if n < 10 then [''0123456789'' ! n]
      else str_nat (n div 10) @ [''0123456789'' ! (n mod 10)])"
  by pat_completeness auto
termination
  by (relation "measure id") auto

declare str_nat.simps [simp del]

definition str_int :: "int \<Rightarrow> string" where
  \<comment> \<open>\<open>str(i)\<close>\<close>
  "str_int i = (if i < 0 then CHR ''-'' # str_nat (nat (- i)) else str_nat (nat i))"

definition check_url :: "validator \<Rightarrow> nat \<Rightarrow> string \<Rightarrow> check_results \<times> reference
    \<Rightarrow> py_error + check_results \<times> reference" where
  \<comment> \<open>the body of the loop over \<open>ref.urls\<close>, for the request number \<open>i\<close>: \<open>Inl\<close> when
      the sleep before the \<open>try\<close> or the GET raises an exception that is not caught\<close>
  "check_url v i u st =
     (let (results, ref) = st
      in case sleep v of
           Some d \<Rightarrow> Inl (Raised d)
         | None \<Rightarrow>
             (case get v i u of
                Response resp \<Rightarrow>
                  if 200 \<le> status_code resp \<and> status_code resp < 300 then
                    (let results = results\<lparr>accessible_urls := accessible_urls results @ [u]\<rparr>;
                         ref = ref\<lparr>is_accessible := True\<rparr>;
                         final_url = url resp;
                         match_result =
                           content_match.extend (check_content_match (fz v) resp ref)
                             \<lparr>mr_url = u, mr_final_url = final_url\<rparr>
                     in Inr (results\<lparr>match_results := match_results results @ [match_result]\<rparr>,
                             ref))
                  else
                    Inr (results\<lparr>inaccessible_urls := inaccessible_urls results @
                           [\<lparr>iu_url = u, iu_status_code = Some (status_code resp),
                             iu_reason = ''HTTP '' @ str_int (status_code resp)\<rparr>]\<rparr>, ref)
              | Timeout \<Rightarrow>
                  Inr (results\<lparr>inaccessible_urls := inaccessible_urls results @
                         [\<lparr>iu_url = u, iu_status_code = None, iu_reason = ''Timeout''\<rparr>]\<rparr>, ref)
              | RequestException e \<Rightarrow>
                  Inr (results\<lparr>inaccessible_urls := inaccessible_urls results @
                         [\<lparr>iu_url = u, iu_status_code = None, iu_reason = e\<rparr>]\<rparr>, ref)
              | OtherException d \<Rightarrow> Inl (Raised d)))"

fun check_urls :: "validator \<Rightarrow> nat \<Rightarrow> string list \<Rightarrow> check_results \<times> reference
    \<Rightarrow> py_error option \<times> check_results \<times> reference" where
  \<comment> \<open>the loop over \<open>ref.urls\<close>: the exception that ended it, if any, and the result
      dictionary and the reference as they are when it ends\<close>
  "check_urls v i [] st = (None, st)"
| "check_urls v i (u # us) st =
     (case check_url v i u st of
        Inl e \<Rightarrow> (Some e, st)
      | Inr st' \<Rightarrow> check_urls v (Suc i) us st')"

definition check_reference :: "validator \<Rightarrow> reference \<Rightarrow> (py_error + check_results) \<times> reference"
  where
  \<comment> \<open>the returned dictionary, or the exception that leaves the call, and the
      reference as the call leaves it\<close>
  "check_reference v ref0 =
     (let results = \<lparr>accessible_urls = [], inaccessible_urls = [], match_results = []\<rparr>;
          (err, results, ref) = check_urls v 0 (urls ref0) (results, ref0)
      in case err of
           Some e \<Rightarrow> (Inl e, ref)
         | None \<Rightarrow>
             (let ref = (if urls ref = [] \<and> enable_search v
                         then ref\<lparr>search_results := Some (search_reference_online v ref)\<rparr>
                         else ref)
              in (Inr results, ref\<lparr>url_check_results := Some results\<rparr>)))"

section \<open>Notions of the specification\<close>

fun keep_first :: "'a list \<Rightarrow> 'a list" where
  \<comment> \<open>"each distinct value, in first-seen order": every value stays where it first
      occurs and its later occurrences are dropped\<close>
  "keep_first [] = []"
| "keep_first (x # xs) = x # filter (\<lambda>y. y \<noteq> x) (keep_first xs)"

datatype url_record = Accessible match_result | Inaccessible inaccessible_url

definition classify :: "validator \<Rightarrow> reference \<Rightarrow> nat \<Rightarrow> string \<Rightarrow> url_record option" where
  \<comment> \<open>the classification of one probed URL in the words of the specification: a status
      in [200,300) is accessible, with the final URL and the content match; any other
      status is inaccessible with the status code; a timeout is inaccessible with the
      reason "Timeout"; any other failure raised as a \<open>RequestException\<close> is inaccessible
      with its description. An exception outside that hierarchy has no record.\<close>
  "classify v ref k u =
     (case get v k u of
        Response resp \<Rightarrow>
          if status_code resp \<in> {200 ..< 300}
          then Some (Accessible (content_match.extend (check_content_match (fz v) resp ref)
                                   \<lparr>mr_url = u, mr_final_url = url resp\<rparr>))
          else Some (Inaccessible \<lparr>iu_url = u, iu_status_code = Some (status_code resp),
                                   iu_reason = ''HTTP '' @ str_int (status_code resp)\<rparr>)
      | Timeout \<Rightarrow>
          Some (Inaccessible \<lparr>iu_url = u, iu_status_code = None, iu_reason = ''Timeout''\<rparr>)
      | RequestException e \<Rightarrow>
          Some (Inaccessible \<lparr>iu_url = u, iu_status_code = None, iu_reason = e\<rparr>)
      | OtherException d \<Rightarrow> None)"

definition probe_error :: "validator \<Rightarrow> nat \<Rightarrow> string \<Rightarrow> py_error option" where
  \<comment> \<open>the exception that leaves the loop at the probe of one URL, if there is one\<close>
  "probe_error v k u =
     (case sleep v of
        Some d \<Rightarrow> Some (Raised d)
      | None \<Rightarrow> (case get v k u of OtherException d \<Rightarrow> Some (Raised d) | _ \<Rightarrow> None))"

definition accessible_outcome :: "outcome \<Rightarrow> bool" where
  \<comment> \<open>a response whose status is in [200,300)\<close>
  "accessible_outcome oc =
     (case oc of Response resp \<Rightarrow> status_code resp \<in> {200 ..< 300} | _ \<Rightarrow> False)"

definition doi_form :: "string \<Rightarrow> bool" where
  \<comment> \<open>\<open>10.\<close>, at least four digits, any dotted digit groups, a slash and at least one
      character that is neither white space, comma nor semicolon\<close>
  "doi_form core \<longleftrightarrow>
     (\<exists>ds groups suf.
        core = ''10.'' @ ds @ concat (map (\<lambda>g. CHR ''.'' # g) groups) @ ''/'' @ suf
        \<and> 4 \<le> length ds \<and> (\<forall>x\<in>set ds. is_digit x)
        \<and> (\<forall>g\<in>set groups. g \<noteq> [] \<and> (\<forall>x\<in>set g. is_digit x))
        \<and> suf \<noteq> [] \<and> (\<forall>x\<in>set suf. doi_suffix_char x))"

definition labelled_doi_at :: "string \<Rightarrow> nat \<Rightarrow> string \<Rightarrow> string \<Rightarrow> bool" where
  \<comment> \<open>at position \<open>i\<close> of the entry: a case-insensitive \<open>doi\<close> label, the separator
      \<open>sep\<close> of white space and colons, and the DOI \<open>core\<close>, which runs up to the next
      white space, comma or semicolon or to the end of the entry\<close>
  "labelled_doi_at entry i sep core \<longleftrightarrow>
     (\<exists>a b c post.
        drop i entry = [a, b, c] @ sep @ core @ post
        \<and> a \<in> set ''dD'' \<and> b \<in> set ''oO'' \<and> c \<in> set ''iI''
        \<and> (\<forall>x\<in>set sep. is_space x \<or> x = CHR '':'')
        \<and> doi_form core
        \<and> (post = [] \<or> \<not> doi_suffix_char (hd post)))"

section \<open>Sample inputs\<close>

definition sample_fuzz :: fuzz where
  \<comment> \<open>similarity 80 against the hit title used below, 40 against anything else\<close>
  "sample_fuzz =
     \<lparr>ratio = (\<lambda>a b. if a = b then 100 else 0),
      partial_ratio = (\<lambda>a b. if b = ''deep learning survey'' then 80 else 40)\<rparr>"

definition sample_hit :: search_hit where
  "sample_hit =
     \<lparr>hit_title = ''Deep Learning Survey'', hit_url = ''http://hit.org'',
      hit_snippet = ''A review by Smith''\<rparr>"

definition sample_validator :: validator where
  "sample_validator =
     \<lparr>enable_search = True,
      fz = sample_fuzz,
      sleep = None,
      get = (\<lambda>k u.
               if u = ''http://ok.org'' then
                 Response \<lparr>status_code = 200, url = ''https://ok.org/final'', content = None\<rparr>
               else if u = ''http://slow.org'' then Timeout
               else if u = ''http://down.org'' then RequestException ''Connection refused''
               else if u = ''http://www..example.com/paper'' then
                 OtherException ''Failed to parse: www..example.com, label empty or too long''
               else Response \<lparr>status_code = 404, url = u, content = None\<rparr>),
      perform_search = (\<lambda>q. [sample_hit])\<rparr>"

definition sample_reference :: "string list \<Rightarrow> reference" where
  \<comment> \<open>a freshly extracted reference with the given URLs\<close>
  "sample_reference us =
     (Reference ''Smith, J. Deep Learning Survey'')
       \<lparr>authors := [''Smith, J.''], title := ''Deep Learning Survey'', urls := us\<rparr>"

section \<open>Properties of the regular-expression scan\<close>

lemma finditer_groups:
  "(pre, mt, gs) \<in> set (fst (finditer m prev acc s)) \<Longrightarrow>
     \<exists>p t r. m p t = Some (gs, r) \<and> mt = matched t r \<and> length r < length t"
proof (induction m prev acc s arbitrary: pre mt gs rule: finditer.induct)
  case (1 m prev acc)
  then show ?case by simp
next
  case (2 m prev acc c cs)
  show ?case
  proof (cases "m prev (c # cs)")
    case None
    with 2 show ?thesis by simp
  next
    case (Some a)
    obtain gs' r where a: "a = (gs', r)" by (cases a)
    show ?thesis
    proof (cases "length r \<le> length cs")
      case True
      obtain ms rest where f: "finditer m (Some (last (matched (c # cs) r))) [] r = (ms, rest)"
        by (cases "finditer m (Some (last (matched (c # cs) r))) [] r")
      from 2(4) Some a True f
      have "(pre, mt, gs) = (rev acc, matched (c # cs) r, gs') \<or> (pre, mt, gs) \<in> set ms"
        by (simp add: Let_def)
      then show ?thesis
      proof
        assume "(pre, mt, gs) = (rev acc, matched (c # cs) r, gs')"
        with Some a True show ?thesis
          by (intro exI [of _ prev] exI [of _ "c # cs"] exI [of _ r]) simp
      next
        assume "(pre, mt, gs) \<in> set ms"
        with 2(2) [OF Some a [symmetric] True refl] f show ?thesis by simp
      qed
    next
      case False
      with 2 Some a show ?thesis by simp
    qed
  qed
qed

text \<open>
  For a pattern that does not look at the character before the match, the first match
  of the scan starts at the leftmost position where the pattern matches.
\<close>

lemma finditer_first:
  assumes ins: "\<And>p q t. m p t = m q t"
    and prog: "\<And>p t gs r. m p t = Some (gs, r) \<Longrightarrow> length r < length t"
  shows "(case fst (finditer m prev acc s) of
            [] \<Rightarrow> \<forall>i<length s. m None (drop i s) = None
          | (pre, mt, gs) # _ \<Rightarrow>
              \<exists>i r. i < length s \<and> m None (drop i s) = Some (gs, r)
                \<and> mt = matched (drop i s) r \<and> (\<forall>j<i. m None (drop j s) = None))"
proof (induction s arbitrary: prev acc)
  case Nil
  show ?case by simp
next
  case (Cons c cs)
  show ?case
  proof (cases "m prev (c # cs)")
    case None
    then have n: "m None (c # cs) = None" using ins [of None "c # cs" prev] by simp
    have f: "finditer m prev acc (c # cs) = finditer m (Some c) (c # acc) cs"
      using None by simp
    show ?thesis
    proof (cases "fst (finditer m (Some c) (c # acc) cs)")
      case Nil
      with Cons [of "Some c" "c # acc"] have "\<forall>i<length cs. m None (drop i cs) = None"
        by simp
      with n have "\<forall>i<length (c # cs). m None (drop i (c # cs)) = None"
        by (auto simp: less_Suc_eq_0_disj)
      with Nil f show ?thesis by simp
    next
      case (Cons e es)
      obtain pre mt gs where e: "e = (pre, mt, gs)" by (cases e)
      from Cons.IH [of "Some c" "c # acc"] Cons e obtain i r
        where i: "i < length cs" "m None (drop i cs) = Some (gs, r)"
          "mt = matched (drop i cs) r" "\<forall>j<i. m None (drop j cs) = None"
        by auto
      have "\<forall>j<Suc i. m None (drop j (c # cs)) = None"
        using n i(4) by (auto simp: less_Suc_eq_0_disj)
      with i(1,2,3) have "\<exists>i r. i < length (c # cs) \<and> m None (drop i (c # cs)) = Some (gs, r)
                \<and> mt = matched (drop i (c # cs)) r \<and> (\<forall>j<i. m None (drop j (c # cs)) = None)"
        by (intro exI [of _ "Suc i"] exI [of _ r]) simp
      with Cons e f show ?thesis by simp
    qed
  next
    case (Some a)
    obtain gs r where a: "a = (gs, r)" by (cases a)
    from prog [of prev "c # cs" gs r] Some a have le: "length r \<le> length cs" by simp
    obtain ms rest where f: "finditer m (Some (last (matched (c # cs) r))) [] r = (ms, rest)"
      by (cases "finditer m (Some (last (matched (c # cs) r))) [] r")
    have "fst (finditer m prev acc (c # cs)) = (rev acc, matched (c # cs) r, gs) # ms"
      using Some a le f by (simp add: Let_def)
    moreover have "m None (c # cs) = Some (gs, r)"
      using Some a ins [of None "c # cs" prev] by simp
    ultimately show ?thesis
      by (simp del: finditer.simps) (intro exI [of _ 0], simp)
  qed
qed

lemma in_set_dropWhile: "x \<in> set s \<Longrightarrow> \<not> P x \<Longrightarrow> x \<in> set (dropWhile P s)"
  by (induction s) auto

lemma in_set_strip:
  assumes "x \<in> set s" "\<not> is_space x"
  shows "x \<in> set (strip s)"
proof -
  have "x \<in> set (rev (dropWhile is_space s))"
    using in_set_dropWhile [OF assms(1), of is_space] assms(2) by simp
  from in_set_dropWhile [OF this, of is_space] assms(2) show ?thesis
    by (simp add: strip_def)
qed

lemma in_set_rstrip_chars:
  assumes "x \<in> set s" "x \<notin> set cs"
  shows "x \<in> set (rstrip_chars cs s)"
proof -
  have "x \<in> set (rev s)" using assms(1) by simp
  from in_set_dropWhile [OF this, of "\<lambda>c. c \<in> set cs"] assms(2) show ?thesis
    by (simp add: rstrip_chars_def)
qed

lemma rstrip_chars_last:
  "rstrip_chars cs s = [] \<or> last (rstrip_chars cs s) \<notin> set cs"
proof (cases "dropWhile (\<lambda>c. c \<in> set cs) (rev s)")
  case Nil
  then show ?thesis by (simp add: rstrip_chars_def)
next
  case (Cons x xs)
  have "\<not> (\<lambda>c. c \<in> set cs) (hd (dropWhile (\<lambda>c. c \<in> set cs) (rev s)))"
    by (rule hd_dropWhile) (simp add: Cons)
  then have "x \<notin> set cs" by (simp add: Cons)
  with Cons show ?thesis by (simp add: rstrip_chars_def)
qed

section \<open>Properties of field extraction\<close>

subsection \<open>What the title and author pass leaves alone\<close>

lemma quoted_title_frame:
  "quoted_title ps ref ct = (ref', ct') \<Longrightarrow>
     year ref' = year ref \<and> doi ref' = doi ref \<and> urls ref' = urls ref
     \<and> raw_text ref' = raw_text ref \<and> is_accessible ref' = is_accessible ref"
  by (induction ps arbitrary: ref ct) (auto split: option.splits prod.splits)

lemma fallback_title_frame:
  "year (fallback_title parts ref) = year ref \<and> doi (fallback_title parts ref) = doi ref
   \<and> urls (fallback_title parts ref) = urls ref
   \<and> raw_text (fallback_title parts ref) = raw_text ref
   \<and> is_accessible (fallback_title parts ref) = is_accessible ref"
  by (induction parts) (auto simp: Let_def)

lemma extract_authors_and_title_frame:
  "year (extract_authors_and_title ref) = year ref"
  "doi (extract_authors_and_title ref) = doi ref"
  "urls (extract_authors_and_title ref) = urls ref"
  "raw_text (extract_authors_and_title ref) = raw_text ref"
  "is_accessible (extract_authors_and_title ref) = is_accessible ref"
  by (auto simp: extract_authors_and_title_def Let_def fallback_title_frame
      split: prod.splits dest: quoted_title_frame)

lemma extract_urls_frame:
  "doi (extract_urls ref) = doi ref" "year (extract_urls ref) = year ref"
  "raw_text (extract_urls ref) = raw_text ref"
  "is_accessible (extract_urls ref) = is_accessible ref"
  by (simp_all add: extract_urls_def)

lemma extract_year_frame:
  "doi (extract_year ref) = doi ref" "urls (extract_year ref) = urls ref"
  "raw_text (extract_year ref) = raw_text ref"
  "is_accessible (extract_year ref) = is_accessible ref"
  by (simp_all add: extract_year_def split: list.splits)

lemma extract_doi_frame:
  "year (extract_doi ref) = year ref" "raw_text (extract_doi ref) = raw_text ref"
  "is_accessible (extract_doi ref) = is_accessible ref"
  by (simp_all add: extract_doi_def Let_def split: option.splits prod.splits)

subsection \<open>Year\<close>

lemma year_pattern_groups:
  "year_pattern p t = Some (gs, r) \<Longrightarrow> gs = [''19''] \<or> gs = [''20'']"
  by (auto simp: year_pattern_def split: list.splits if_splits)

lemma extract_year_cases:
  assumes "year ref = None"
  shows "year (extract_year ref) = None \<or> year (extract_year ref) = Some ''19''
   \<or> year (extract_year ref) = Some ''20''"
proof (cases "fst (finditer year_pattern None [] (raw_text ref))")
  case Nil
  then show ?thesis using assms by (simp add: extract_year_def re_findall1_def)
next
  case (Cons a list)
  obtain pre mt gs where a: "a = (pre, mt, gs)" by (cases a)
  have "(pre, mt, gs) \<in> set (fst (finditer year_pattern None [] (raw_text ref)))"
    using Cons a by simp
  then obtain p t r where "year_pattern p t = Some (gs, r)"
    using finditer_groups by blast
  then have "gs = [''19''] \<or> gs = [''20'']" by (rule year_pattern_groups)
  then show ?thesis using Cons a
    by (auto simp: extract_year_def re_findall1_def)
qed

text \<open>
  Whatever the entry, the stored year is never a four-digit string: \<open>re.findall\<close>
  returns the text of the pattern's one group, which is the century.
\<close>

lemma year_is_century:
  "year (parse_reference_details (Reference text)) \<in> {None, Some ''19'', Some ''20''}"
proof -
  have "year (extract_urls (extract_doi (Reference text))) = None"
    by (simp add: extract_urls_def extract_doi_def Reference_def Let_def
        split: option.splits prod.splits)
  from extract_year_cases [OF this] show ?thesis
    by (auto simp: parse_reference_details_def extract_authors_and_title_frame)
qed

lemma parse_reference_details_year:
  "year (parse_reference_details (Reference text)) =
     (case re_findall1 year_pattern text of [] \<Rightarrow> None | y # _ \<Rightarrow> Some y)"
  by (simp add: parse_reference_details_def extract_authors_and_title_frame extract_year_def
      extract_urls_frame extract_doi_frame Reference_def split: list.splits)

text \<open>
  Claim C1. The claim: field extraction stores as the year the first token of the form
  19xx or 20xx, as the full four-digit string. On the entry below, whose only such
  token is 2020, the code stores the two characters "20".
\<close>

theorem year_holds_century_only:
  "year (parse_reference_details (Reference ''Smith, J. Deep learning survey. Nature, 2020.''))
     = Some ''20''"
  by (subst parse_reference_details_year) code_simp

subsection \<open>URLs\<close>

lemma set_keep_first: "set (keep_first xs) = set xs"
  by (induction xs) auto

lemma distinct_keep_first: "distinct (keep_first xs)"
  by (induction xs) (auto simp: set_keep_first)

lemma add_urls_keep_first:
  "add_urls acc us =
     acc @ filter (\<lambda>u. u \<notin> set acc) (keep_first (map (rstrip_chars ''.,;)'') us))"
proof (induction us arbitrary: acc)
  case Nil
  then show ?case by simp
next
  case (Cons u us)
  let ?f = "rstrip_chars ''.,;)''"
  show ?case
  proof (cases "?f u \<in> set acc")
    case True
    have "filter (\<lambda>x. x \<notin> set acc) (filter (\<lambda>y. y \<noteq> ?f u) (keep_first (map ?f us)))
          = filter (\<lambda>x. x \<notin> set acc) (keep_first (map ?f us))"
      using True by (auto intro!: filter_cong)
    with True Cons [of acc] show ?thesis by (simp add: Let_def)
  next
    case False
    have "filter (\<lambda>x. x \<notin> set (acc @ [?f u])) (keep_first (map ?f us))
          = filter (\<lambda>x. x \<notin> set acc) (filter (\<lambda>y. y \<noteq> ?f u) (keep_first (map ?f us)))"
      by (auto intro!: filter_cong)
    with False Cons [of "acc @ [?f u]"] show ?thesis by (simp add: Let_def)
  qed
qed

lemma extract_doi_fresh_urls:
  "urls (extract_doi (Reference text)) =
     (case doi (extract_doi (Reference text)) of
        None \<Rightarrow> [] | Some d \<Rightarrow> [''https://doi.org/'' @ d])"
  by (simp add: extract_doi_def Reference_def Let_def split: option.splits prod.splits)

lemma parse_reference_details_urls:
  "urls (parse_reference_details (Reference text)) =
     add_urls (urls (extract_doi (Reference text))) (re_findall0 url_pattern text)"
  by (simp add: parse_reference_details_def extract_authors_and_title_frame
      extract_year_frame extract_urls_def extract_doi_frame Reference_def)

lemma parse_reference_details_doi:
  "doi (parse_reference_details (Reference text)) = doi (extract_doi (Reference text))"
  by (simp add: parse_reference_details_def extract_authors_and_title_frame
      extract_year_frame extract_urls_frame)

text \<open>
  Claim C5. After field extraction of any entry string the \<open>urls\<close> list holds no value
  twice. It is the sequence of candidates (the URL derived from the DOI, when there is
  one, then the literal URLs in text order with their trailing punctuation stripped)
  with every value kept at its first position only; so a URL written twice, or a
  literal URL equal to the DOI-derived one, gives one entry.
\<close>

theorem urls_distinct_first_seen:
  "let ref = parse_reference_details (Reference text);
       candidates = (case doi ref of None \<Rightarrow> [] | Some d \<Rightarrow> [''https://doi.org/'' @ d])
                    @ map (rstrip_chars ''.,;)'') (re_findall0 url_pattern text)
   in distinct (urls ref) \<and> urls ref = keep_first candidates"
proof -
  let ?lits = "map (rstrip_chars ''.,;)'') (re_findall0 url_pattern text)"
  let ?d = "doi (extract_doi (Reference text))"
  have u: "urls (parse_reference_details (Reference text)) =
        keep_first ((case ?d of None \<Rightarrow> [] | Some d \<Rightarrow> [''https://doi.org/'' @ d]) @ ?lits)"
    by (cases ?d)
      (simp_all add: parse_reference_details_urls extract_doi_fresh_urls add_urls_keep_first)
  show ?thesis
    unfolding Let_def parse_reference_details_doi
    using u distinct_keep_first by metis
qed

theorem urls_distinct_first_seen_witness:
  "urls (parse_reference_details (Reference
      ''See http://a.org/p, doi:10.1000/x. Also https://doi.org/10.1000/x and http://a.org/p.''))
   = [''https://doi.org/10.1000/x'', ''http://a.org/p'']"
  using urls_distinct_first_seen
    [of "''See http://a.org/p, doi:10.1000/x. Also https://doi.org/10.1000/x and http://a.org/p.''"]
  by (subst parse_reference_details_urls) code_simp

subsection \<open>DOI\<close>

lemma dot_groups_groups:
  "\<exists>groups. s = concat (map (\<lambda>g. CHR ''.'' # g) groups) @ dot_groups s
     \<and> (\<forall>g\<in>set groups. g \<noteq> [] \<and> (\<forall>x\<in>set g. is_digit x))"
proof (induction s rule: dot_groups.induct)
  case (1 s)
  have triv: "dot_groups s = s \<Longrightarrow> ?case"
    by (intro exI [of _ "[]"]) simp
  show ?case
  proof (cases s)
    case Nil
    then have "dot_groups s = s" by (subst dot_groups.simps) simp
    then show ?thesis by (rule triv)
  next
    case (Cons c s1)
    show ?thesis
    proof (cases s1)
      case Nil
      with Cons have "dot_groups s = s" by (subst dot_groups.simps) simp
      then show ?thesis by (rule triv)
    next
      case (Cons d r)
      note s = \<open>s = c # s1\<close> Cons
      show ?thesis
      proof (cases "c = CHR ''.'' \<and> is_digit d")
        case True
        from 1 [OF s(1) s(2)] True
        obtain groups where p:
          "dropWhile is_digit r
             = concat (map (\<lambda>g. CHR ''.'' # g) groups) @ dot_groups (dropWhile is_digit r)"
          "\<forall>g\<in>set groups. g \<noteq> [] \<and> (\<forall>x\<in>set g. is_digit x)"
          by auto
        have r: "r = takeWhile is_digit r @ dropWhile is_digit r" by simp
        have dg: "dot_groups s = dot_groups (dropWhile is_digit r)"
          using s True by (subst dot_groups.simps) simp
        let ?g = "d # takeWhile is_digit r"
        have "s = concat (map (\<lambda>g. CHR ''.'' # g) (?g # groups)) @ dot_groups s"
          using s p(1) r dg True by (metis append.assoc append_Cons concat.simps(2) list.simps(9))
        moreover have "\<forall>g\<in>set (?g # groups). g \<noteq> [] \<and> (\<forall>x\<in>set g. is_digit x)"
          using p(2) True set_takeWhileD [of _ is_digit r] by auto
        ultimately show ?thesis by blast
      next
        case False
        with s have "dot_groups s = s" by (subst dot_groups.simps) auto
        then show ?thesis by (rule triv)
      qed
    qed
  qed
qed

lemma dot_groups_complete:
  assumes "\<forall>g\<in>set groups. g \<noteq> [] \<and> (\<forall>c\<in>set g. is_digit c)"
  shows "dot_groups (concat (map (\<lambda>g. CHR ''.'' # g) groups) @ CHR ''/'' # rest)
         = CHR ''/'' # rest"
  using assms
proof (induction groups)
  case Nil
  show ?case by (subst dot_groups.simps) (simp split: list.splits)
next
  case (Cons g groups)
  then obtain d g' where g: "g = d # g'" "is_digit d" "\<forall>c\<in>set g'. is_digit c"
    by (cases g) auto
  let ?tail = "concat (map (\<lambda>g. CHR ''.'' # g) groups) @ CHR ''/'' # rest"
  have nd: "?tail \<noteq> [] \<and> \<not> is_digit (hd ?tail)"
    by (cases groups) (auto simp: is_digit_def)
  have "dropWhile is_digit (g' @ ?tail) = ?tail"
    using g(3) nd by (cases ?tail) (auto simp: dropWhile_append)
  moreover have "dot_groups (CHR ''.'' # d # g' @ ?tail)
      = dot_groups (dropWhile is_digit (g' @ ?tail))"
    using g(2) by (subst dot_groups.simps) simp
  ultimately have "dot_groups (CHR ''.'' # d # g' @ ?tail) = dot_groups ?tail"
    by simp
  with Cons g show ?case by simp
qed

lemma doi_pattern_complete:
  assumes lab: "a \<in> set ''dD''" "b \<in> set ''oO''" "c \<in> set ''iI''"
    and sep: "\<forall>x\<in>set sep. is_space x \<or> x = CHR '':''"
    and ds: "4 \<le> length ds" "\<forall>x\<in>set ds. is_digit x"
    and groups: "\<forall>g\<in>set groups. g \<noteq> [] \<and> (\<forall>x\<in>set g. is_digit x)"
    and suf: "suf \<noteq> []" "\<forall>x\<in>set suf. doi_suffix_char x"
    and post: "post = [] \<or> \<not> doi_suffix_char (hd post)"
  shows "doi_pattern prev
           ([a, b, c] @ sep @ ''10.'' @ ds @ concat (map (\<lambda>g. CHR ''.'' # g) groups)
              @ ''/'' @ suf @ post) = Some ([], post)"
proof -
  obtain y suf' where y: "suf = y # suf'" "doi_suffix_char y" "\<forall>x\<in>set suf'. doi_suffix_char x"
    using suf by (cases suf) auto
  let ?dots = "concat (map (\<lambda>g. CHR ''.'' # g) groups)"
  let ?tail = "?dots @ CHR ''/'' # y # suf' @ post"
  let ?r1 = "CHR ''1'' # CHR ''0'' # CHR ''.'' # ds @ ?tail"
  have r1: "dropWhile (\<lambda>x. is_space x \<or> x = CHR '':'') (sep @ ?r1) = ?r1"
    using sep by (simp add: dropWhile_append is_space_def)
  have nd: "?tail \<noteq> [] \<and> \<not> is_digit (hd ?tail)"
    by (cases groups) (auto simp: is_digit_def)
  have tw: "takeWhile is_digit (ds @ ?tail) = ds"
    using ds(2) nd by (cases ?tail) (auto simp: takeWhile_append)
  have dw: "dropWhile is_digit (ds @ ?tail) = ?tail"
    using ds(2) nd by (cases ?tail) (auto simp: dropWhile_append)
  have dg: "dot_groups ?tail = CHR ''/'' # y # suf' @ post"
    using dot_groups_complete [OF groups] by simp
  have dp: "dropWhile doi_suffix_char (suf' @ post) = post"
    using y(3) post by (cases post) (auto simp: dropWhile_append)
  have "doi_pattern prev (a # b # c # sep @ ?r1)
        = Some ([], dropWhile doi_suffix_char (suf' @ post))"
    using lab ds(1) y(2) unfolding doi_pattern_def
    by (simp only: list.case r1 Let_def) (simp add: tw dw dg del: set_simps dropWhile_append)
  then show ?thesis using y(1) dp by simp
qed

lemma doi_pattern_start:
  assumes "doi_pattern prev s = Some (gs, r)"
  shows "\<exists>a b c r0. s = a # b # c # r0"
proof (cases s)
  case Nil
  with assms show ?thesis by (simp add: doi_pattern_def)
next
  case s1: (Cons a s1)
  show ?thesis
  proof (cases s1)
    case Nil
    with assms s1 show ?thesis by (simp add: doi_pattern_def)
  next
    case s2: (Cons b s2)
    show ?thesis
    proof (cases s2)
      case Nil
      with assms s1 s2 show ?thesis by (simp add: doi_pattern_def)
    next
      case (Cons c r0)
      with s1 s2 show ?thesis by simp
    qed
  qed
qed

lemma doi_pattern_sound:
  assumes "doi_pattern prev s = Some (gs, r)"
  shows "\<exists>a b c sep core. s = [a, b, c] @ sep @ core @ r \<and> gs = []
           \<and> a \<in> set ''dD'' \<and> b \<in> set ''oO'' \<and> c \<in> set ''iI''
           \<and> (\<forall>x\<in>set sep. is_space x \<or> x = CHR '':'')
           \<and> doi_form core \<and> (r = [] \<or> \<not> doi_suffix_char (hd r))"
proof -
  let ?sepc = "\<lambda>x. is_space x \<or> x = CHR '':''"
  from doi_pattern_start [OF assms] obtain a b c r0 where s: "s = a # b # c # r0"
    by blast
  define r1 where "r1 = dropWhile ?sepc r0"
  define X where "X = drop 3 r1"
  define D where "D = dot_groups (dropWhile is_digit X)"
  define L where "L \<longleftrightarrow> a \<in> set ''dD'' \<and> b \<in> set ''oO'' \<and> c \<in> set ''iI''"
  define T where "T \<longleftrightarrow> take 3 r1 = ''10.'' \<and> 4 \<le> length (takeWhile is_digit X)"
  define C where "C = (case D of
              x # y # r2 \<Rightarrow>
                if x = CHR ''/'' \<and> doi_suffix_char y
                then Some ([] :: string list, dropWhile doi_suffix_char r2) else None
            | _ \<Rightarrow> None)"
  have eq: "doi_pattern prev s = (if L then if T then C else None else None)"
    unfolding doi_pattern_def s r1_def X_def D_def L_def T_def C_def
    by (simp only: list.case Let_def)
  from assms eq have L: L and T: T and C: "C = Some (gs, r)"
    by (cases L; cases T; simp)+
  from C obtain x y r2 where D: "D = x # y # r2"
    and C': "(if x = CHR ''/'' \<and> doi_suffix_char y
       then Some ([] :: string list, dropWhile doi_suffix_char r2) else None) = Some (gs, r)"
    unfolding C_def by (auto split: list.splits)
  then have dg: "D = CHR ''/'' # y # r2" and y: "doi_suffix_char y"
    and r: "r = dropWhile doi_suffix_char r2" and gs: "gs = []"
    by (simp_all split: if_splits)
  obtain groups where p: "dropWhile is_digit X = concat (map (\<lambda>g. CHR ''.'' # g) groups) @ D"
    and groups: "\<forall>g\<in>set groups. g \<noteq> [] \<and> (\<forall>x\<in>set g. is_digit x)"
    unfolding D_def using dot_groups_groups [of "dropWhile is_digit X"] by blast
  define ds where "ds = takeWhile is_digit X"
  define suf where "suf = y # takeWhile doi_suffix_char r2"
  define core where
    "core = ''10.'' @ ds @ concat (map (\<lambda>g. CHR ''.'' # g) groups) @ ''/'' @ suf"
  have ds: "4 \<le> length ds" "\<forall>x\<in>set ds. is_digit x"
    using T set_takeWhileD [of _ is_digit X] unfolding T_def ds_def by auto
  have suf: "suf \<noteq> []" "\<forall>x\<in>set suf. doi_suffix_char x"
    using y set_takeWhileD [of _ doi_suffix_char r2] unfolding suf_def by auto
  have form: "doi_form core"
    unfolding doi_form_def core_def using ds groups suf by blast
  have "X = takeWhile is_digit X @ dropWhile is_digit X" by simp
  then have "X = ds @ concat (map (\<lambda>g. CHR ''.'' # g) groups) @ CHR ''/'' # y # r2"
    using p dg by (simp add: ds_def)
  moreover have "r2 = takeWhile doi_suffix_char r2 @ r" using r by simp
  moreover have "r1 = take 3 r1 @ X" unfolding X_def by simp
  ultimately have "r1 = core @ r" unfolding core_def suf_def using T unfolding T_def by simp
  moreover have "r0 = takeWhile ?sepc r0 @ r1" unfolding r1_def by simp
  ultimately have "s = [a, b, c] @ takeWhile ?sepc r0 @ core @ r"
    using s by simp
  moreover have "\<forall>x\<in>set (takeWhile ?sepc r0). ?sepc x"
    using set_takeWhileD [of _ ?sepc r0] by blast
  moreover have "r = [] \<or> \<not> doi_suffix_char (hd r)"
    unfolding r using hd_dropWhile [of doi_suffix_char r2] by blast
  ultimately show ?thesis using gs L form unfolding L_def
    by (intro exI [of _ a] exI [of _ b] exI [of _ c] exI [of _ "takeWhile ?sepc r0"]
        exI [of _ core]) simp
qed

lemma doi_pattern_prev: "doi_pattern p s = doi_pattern q s"
  by (simp add: doi_pattern_def)

lemma doi_pattern_progress:
  assumes "doi_pattern p t = Some (gs, r)"
  shows "length r < length t"
proof -
  from doi_pattern_sound [OF assms] obtain a b c sep core
    where "t = [a, b, c] @ sep @ core @ r" by blast
  then have "length t = 3 + length sep + length core + length r" by simp
  then show ?thesis by simp
qed

lemma labelled_doi_at_match:
  assumes "labelled_doi_at entry i sep core"
  shows "\<exists>lab post. drop i entry = lab @ sep @ core @ post \<and> length lab = 3
           \<and> CHR '':'' \<notin> set lab \<and> doi_pattern p (drop i entry) = Some ([], post)"
proof -
  from assms obtain a b c post where d: "drop i entry = [a, b, c] @ sep @ core @ post"
    and lab: "a \<in> set ''dD''" "b \<in> set ''oO''" "c \<in> set ''iI''"
    and sep: "\<forall>x\<in>set sep. is_space x \<or> x = CHR '':''"
    and form: "doi_form core" and post: "post = [] \<or> \<not> doi_suffix_char (hd post)"
    unfolding labelled_doi_at_def by blast
  from form obtain ds groups suf
    where core: "core = ''10.'' @ ds @ concat (map (\<lambda>g. CHR ''.'' # g) groups) @ ''/'' @ suf"
      and ds: "4 \<le> length ds" "\<forall>x\<in>set ds. is_digit x"
      and groups: "\<forall>g\<in>set groups. g \<noteq> [] \<and> (\<forall>x\<in>set g. is_digit x)"
      and suf: "suf \<noteq> []" "\<forall>x\<in>set suf. doi_suffix_char x"
    unfolding doi_form_def by blast
  have "doi_pattern p (drop i entry) = Some ([], post)"
    using doi_pattern_complete [OF lab sep ds groups suf post, of p] unfolding d core by simp
  moreover have "CHR '':'' \<notin> set [a, b, c]" using lab by auto
  ultimately show ?thesis using d
    by (intro exI [of _ "[a, b, c]"] exI [of _ post]) simp
qed

lemma match_labelled_doi_at:
  assumes "doi_pattern p (drop i entry) = Some (gs, r)"
  shows "\<exists>sep core. labelled_doi_at entry i sep core"
  using doi_pattern_sound [OF assms] unfolding labelled_doi_at_def by blast


lemma split1_last_keeps:
  assumes "CHR '':'' \<notin> set lab" "x \<in> set core" "CHR '':'' \<in> set sep"
  shows "x \<in> set (split1_last CHR '':'' (lab @ sep @ core))"
proof -
  let ?P = "\<lambda>c. c \<noteq> CHR '':''"
  have ne: "dropWhile ?P sep \<noteq> []" using assms(3) by (simp add: dropWhile_eq_Nil_conv)
  have "dropWhile ?P (lab @ sep @ core) = dropWhile ?P sep @ core"
    using assms(1,3) by (auto simp: dropWhile_append)
  then have "tl (dropWhile ?P (lab @ sep @ core)) = tl (dropWhile ?P sep) @ core"
    using ne by simp
  then show ?thesis using assms(2,3) by (simp add: split1_last_def)
qed

lemma split1_last_one_colon:
  assumes "CHR '':'' \<notin> set lab" and "\<forall>x\<in>set sep. is_space x \<or> x = CHR '':''"
    and "count_list sep CHR '':'' = 1"
  shows "\<exists>ws. split1_last CHR '':'' (lab @ sep @ core) = ws @ core \<and> (\<forall>x\<in>set ws. is_space x)"
proof -
  let ?P = "\<lambda>c. c \<noteq> CHR '':''"
  from assms(3) have "CHR '':'' \<in> set sep"
    using count_list_0_iff [of sep "CHR '':''"] by auto
  from split_list_first [OF this] obtain s1 s2
    where sep: "sep = s1 @ CHR '':'' # s2" "CHR '':'' \<notin> set s1" by blast
  from assms(3) sep have "count_list s2 CHR '':'' = 0"
    using count_list_0_iff [of s1 "CHR '':''"] by simp
  then have "CHR '':'' \<notin> set s2" using count_list_0_iff [of s2 "CHR '':''"] by simp
  with assms(2) sep(1) have ws: "\<forall>x\<in>set s2. is_space x" by auto
  have "dropWhile ?P (lab @ sep @ core) = CHR '':'' # s2 @ core"
    using assms(1) sep by (simp add: dropWhile_append)
  then have "split1_last CHR '':'' (lab @ sep @ core) = s2 @ core"
    using sep(1) by (simp add: split1_last_def)
  with ws show ?thesis by blast
qed

lemma strip_leading_space:
  assumes "\<forall>x\<in>set ws. is_space x" and "core \<noteq> []"
    and "\<not> is_space (hd core)" and "\<not> is_space (last core)"
  shows "strip (ws @ core) = core"
proof -
  have "dropWhile is_space (ws @ core) = core"
    using assms(1,2,3) by (cases core) (auto simp: dropWhile_append)
  moreover have "dropWhile is_space (rev core) = rev core"
    using assms(2,4) by (cases "rev core") (auto simp: hd_rev)
  ultimately show ?thesis by (simp add: strip_def)
qed

lemma doi_form_ends:
  assumes "doi_form core"
  shows "core \<noteq> []" and "\<not> is_space (hd core)" and "\<not> is_space (last core)"
    and "CHR ''/'' \<in> set core"
proof -
  from assms obtain ds groups suf
    where core: "core = ''10.'' @ ds @ concat (map (\<lambda>g. CHR ''.'' # g) groups) @ ''/'' @ suf"
      and suf: "suf \<noteq> []" "\<forall>x\<in>set suf. doi_suffix_char x"
    unfolding doi_form_def by blast
  show "core \<noteq> []" "\<not> is_space (hd core)" "CHR ''/'' \<in> set core"
    unfolding core by (simp_all add: is_space_def)
  have "last core = last suf" unfolding core using suf(1) by simp
  moreover have "last suf \<in> set suf" using suf(1) by simp
  ultimately show "\<not> is_space (last core)"
    using suf(2) by (auto simp: doi_suffix_char_def)
qed

lemma re_search_doi_first:
  "(case re_search doi_pattern entry of
      None \<Rightarrow> \<forall>i<length entry. doi_pattern None (drop i entry) = None
    | Some (mt, gs) \<Rightarrow>
        \<exists>i r. i < length entry \<and> doi_pattern None (drop i entry) = Some (gs, r)
          \<and> mt = matched (drop i entry) r \<and> (\<forall>j<i. doi_pattern None (drop j entry) = None))"
  using finditer_first [where m = doi_pattern and prev = None and acc = "[]" and s = entry,
      OF doi_pattern_prev doi_pattern_progress]
  by (auto simp: re_search_def split: list.splits)

lemma re_search_doi_leftmost:
  assumes at: "labelled_doi_at entry i sep core"
    and first: "\<forall>j<i. \<forall>sep' core'. \<not> labelled_doi_at entry j sep' core'"
  shows "\<exists>lab. re_search doi_pattern entry = Some (lab @ sep @ core, [])
           \<and> length lab = 3 \<and> CHR '':'' \<notin> set lab"
proof -
  from labelled_doi_at_match [OF at, of None] obtain lab post
    where d: "drop i entry = lab @ sep @ core @ post" "length lab = 3" "CHR '':'' \<notin> set lab"
      and m: "doi_pattern None (drop i entry) = Some ([], post)"
    by blast
  from d(1,2) have i: "i < length entry" by (cases "i < length entry") auto
  show ?thesis
  proof (cases "re_search doi_pattern entry")
    case None
    with re_search_doi_first [of entry] i m show ?thesis by simp
  next
    case (Some a)
    obtain mt gs where a: "a = (mt, gs)" by (cases a)
    from re_search_doi_first [of entry] Some a obtain k r
      where k: "k < length entry" "doi_pattern None (drop k entry) = Some (gs, r)"
        "mt = matched (drop k entry) r" "\<forall>j<k. doi_pattern None (drop j entry) = None"
      by auto
    from match_labelled_doi_at [OF k(2)] first have "\<not> k < i" by blast
    moreover from k(4) m have "\<not> i < k" by auto
    ultimately have "k = i" by simp
    with k(2,3) m have "gs = []" "mt = matched (drop i entry) post" by simp_all
    then have "mt = lab @ sep @ core" "gs = []" using d(1) by (simp_all add: matched_def)
    with Some a d(2,3) show ?thesis by simp
  qed
qed

text \<open>
  Claim C2, amended. The DOI pattern requires the label. For every entry string the
  \<open>doi\<close> field is set if and only if the entry holds a labelled DOI: a case-insensitive
  "doi", then any white space and colons, then \<open>10.\<close>, at least four digits, any dotted
  digit groups, a slash and at least one character that is neither white space, comma
  nor semicolon; so a DOI that is not preceded by the label is never extracted.
  Whenever the field is set it does not end in a full stop, comma or semicolon, and
  \<open>https://doi.org/\<close> followed by it is the first entry of \<open>urls\<close>. When the separator
  of the leftmost labelled DOI holds a colon the \<open>doi\<close> is not empty, and when it holds
  exactly one colon the \<open>doi\<close> is that DOI, taken up to the next white space, comma or
  semicolon, without its trailing full stops.
\<close>

theorem doi_extracted_when_labelled:
  fixes entry :: string
  defines "ref \<equiv> parse_reference_details (Reference entry)"
  shows "(doi ref \<noteq> None \<longleftrightarrow> (\<exists>i sep core. labelled_doi_at entry i sep core))
         \<and> (\<forall>d. doi ref = Some d \<longrightarrow>
               (d = [] \<or> last d \<notin> set ''.,;'')
               \<and> hd (urls ref) = ''https://doi.org/'' @ d
               \<and> ''https://doi.org/'' @ d \<in> set (urls ref))
         \<and> (labelled_doi_at entry i sep core
              \<and> (\<forall>j<i. \<forall>sep' core'. \<not> labelled_doi_at entry j sep' core')
              \<and> CHR '':'' \<in> set sep
            \<longrightarrow> (\<exists>d. doi ref = Some d \<and> d \<noteq> []
                   \<and> (count_list sep CHR '':'' = 1 \<longrightarrow> d = rstrip_chars ''.,;'' core)))"
proof (intro conjI allI impI)
  show "doi ref \<noteq> None \<longleftrightarrow> (\<exists>i sep core. labelled_doi_at entry i sep core)"
  proof
    assume "doi ref \<noteq> None"
    then obtain mt gs where "re_search doi_pattern entry = Some (mt, gs)"
      unfolding ref_def parse_reference_details_doi
      by (auto simp: extract_doi_def Reference_def split: option.splits)
    with re_search_doi_first [of entry] obtain k r
      where "doi_pattern None (drop k entry) = Some (gs, r)" by auto
    from match_labelled_doi_at [OF this] show "\<exists>i sep core. labelled_doi_at entry i sep core"
      by blast
  next
    assume "\<exists>i sep core. labelled_doi_at entry i sep core"
    then obtain k sep0 core0 where at: "labelled_doi_at entry k sep0 core0" by blast
    from labelled_doi_at_match [OF at, of None] obtain lab post
      where d: "drop k entry = lab @ sep0 @ core0 @ post" "length lab = 3"
        and m: "doi_pattern None (drop k entry) = Some ([], post)"
      by blast
    from d have "k < length entry" by (cases "k < length entry") auto
    with m re_search_doi_first [of entry] have "re_search doi_pattern entry \<noteq> None"
      by (auto split: option.splits)
    then show "doi ref \<noteq> None"
      unfolding ref_def parse_reference_details_doi
      by (auto simp: extract_doi_def Reference_def Let_def split: option.splits)
  qed
next
  fix d
  assume set: "doi ref = Some d"
  then obtain g0 gs where rs: "re_search doi_pattern entry = Some (g0, gs)"
    and d: "d = rstrip_chars ''.,;'' (strip (split1_last CHR '':'' g0))"
    unfolding ref_def parse_reference_details_doi
    by (auto simp: extract_doi_def Reference_def Let_def split: option.splits)
  have eu: "urls (extract_doi (Reference entry)) = [''https://doi.org/'' @ d]"
    using rs d by (simp add: extract_doi_def Reference_def Let_def)
  have pu: "urls ref =
      (''https://doi.org/'' @ d) # filter (\<lambda>u. u \<notin> set [''https://doi.org/'' @ d])
         (keep_first (map (rstrip_chars ''.,;)'') (re_findall0 url_pattern entry)))"
    unfolding ref_def parse_reference_details_urls eu add_urls_keep_first by simp
  show "d = [] \<or> last d \<notin> set ''.,;''"
    unfolding d by (rule rstrip_chars_last)
  show "hd (urls ref) = ''https://doi.org/'' @ d"
    and "''https://doi.org/'' @ d \<in> set (urls ref)"
    unfolding pu by simp_all
next
  assume h: "labelled_doi_at entry i sep core
              \<and> (\<forall>j<i. \<forall>sep' core'. \<not> labelled_doi_at entry j sep' core')
              \<and> CHR '':'' \<in> set sep"
  then have at: "labelled_doi_at entry i sep core"
    and first: "\<forall>j<i. \<forall>sep' core'. \<not> labelled_doi_at entry j sep' core'"
    and colon: "CHR '':'' \<in> set sep"
    by blast+
  from at have sep: "\<forall>x\<in>set sep. is_space x \<or> x = CHR '':''" and form: "doi_form core"
    unfolding labelled_doi_at_def by blast+
  from re_search_doi_leftmost [OF at first] obtain lab
    where rs: "re_search doi_pattern entry = Some (lab @ sep @ core, [])"
      and lab: "length lab = 3" "CHR '':'' \<notin> set lab"
    by blast
  define d where "d = rstrip_chars ''.,;'' (strip (split1_last CHR '':'' (lab @ sep @ core)))"
  have set: "doi ref = Some d"
    unfolding ref_def parse_reference_details_doi
    using rs by (simp add: extract_doi_def Reference_def Let_def d_def)
  have "CHR ''/'' \<in> set (split1_last CHR '':'' (lab @ sep @ core))"
    by (rule split1_last_keeps [OF lab(2) doi_form_ends(4) [OF form] colon])
  then have "CHR ''/'' \<in> set (strip (split1_last CHR '':'' (lab @ sep @ core)))"
    by (rule in_set_strip) (simp add: is_space_def)
  then have "CHR ''/'' \<in> set d"
    unfolding d_def by (rule in_set_rstrip_chars) simp
  then have ne: "d \<noteq> []" by auto
  have one: "d = rstrip_chars ''.,;'' core" if "count_list sep CHR '':'' = 1"
  proof -
    from split1_last_one_colon [OF lab(2) sep that, of core] obtain ws
      where "split1_last CHR '':'' (lab @ sep @ core) = ws @ core" "\<forall>x\<in>set ws. is_space x"
      by blast
    then show ?thesis
      unfolding d_def using strip_leading_space [OF _ doi_form_ends(1,2,3) [OF form], of ws]
      by simp
  qed
  show "\<exists>d. doi ref = Some d \<and> d \<noteq> []
           \<and> (count_list sep CHR '':'' = 1 \<longrightarrow> d = rstrip_chars ''.,;'' core)"
    using set ne one by blast
qed


theorem doi_extracted_when_labelled_witness:
  "doi (parse_reference_details (Reference ''See doi: 10.1000.5/abc1.''))
     = Some ''10.1000.5/abc1''
   \<and> hd (urls (parse_reference_details (Reference ''See doi: 10.1000.5/abc1.'')))
     = ''https://doi.org/10.1000.5/abc1''"
proof -
  let ?e = "''See doi: 10.1000.5/abc1.''"
  have form: "doi_form ''10.1000.5/abc1.''"
    unfolding doi_form_def
    by (intro exI [of _ "''1000''"] exI [of _ "[''5'']"] exI [of _ "''abc1.''"])
      (simp add: is_digit_def doi_suffix_char_def is_space_def)
  have at: "labelled_doi_at ?e 4 '': '' ''10.1000.5/abc1.''"
    unfolding labelled_doi_at_def
    by (intro exI [of _ "CHR ''d''"] exI [of _ "CHR ''o''"] exI [of _ "CHR ''i''"]
        exI [of _ "[]"]) (simp add: form is_space_def)
  have j: "j = 0 \<or> j = 1 \<or> j = 2 \<or> j = 3" if "j < 4" for j :: nat
    using that by arith
  have first: "\<forall>j<4. \<forall>sep' core'. \<not> labelled_doi_at ?e j sep' core'"
  proof (intro allI impI)
    fix j :: nat and sep' core'
    assume "j < 4"
    from j [OF this] show "\<not> labelled_doi_at ?e j sep' core'"
      by (auto simp: labelled_doi_at_def)
  qed
  have colon: "CHR '':'' \<in> set '': ''" and one: "count_list '': '' CHR '':'' = 1"
    by simp_all
  have r: "rstrip_chars ''.,;'' ''10.1000.5/abc1.'' = ''10.1000.5/abc1''"
    by (simp add: rstrip_chars_def)
  from doi_extracted_when_labelled
    [where entry = ?e and i = 4 and sep = "'': ''" and core = "''10.1000.5/abc1.''"]
    at first colon one r
  show ?thesis by auto
qed

text \<open>
  The claim as stated fails where the DOI carries no label: nothing is extracted.
\<close>

theorem doi_without_label_counterexample:
  "doi (parse_reference_details (Reference ''Lee, K. A study. 10.1000/abc123'')) = None
   \<and> urls (parse_reference_details (Reference ''Lee, K. A study. 10.1000/abc123'')) = []"
  by (subst parse_reference_details_doi, subst parse_reference_details_urls) code_simp

text \<open>
  What the amended claim leaves open: when no colon follows the label,
  \<open>split(':', 1)[-1]\<close> does not remove the label. The stored text then keeps it, or
  is cut at a colon inside the suffix of the DOI, down to nothing in the third entry.
\<close>

lemma doi_keeps_label_without_colon:
  "doi (parse_reference_details (Reference ''doi 10.1000/abc'')) = Some ''doi 10.1000/abc''"
  by (subst parse_reference_details_doi) code_simp

lemma doi_cut_inside_suffix:
  "doi (parse_reference_details (Reference ''See doi 10.1000/ab:cd'')) = Some ''cd''"
  by (subst parse_reference_details_doi) code_simp

lemma doi_cut_at_suffix_colon:
  "doi (parse_reference_details (Reference ''See doi 10.1000/x:'')) = Some []"
  by (subst parse_reference_details_doi) code_simp

subsection \<open>Title\<close>













section \<open>Properties of segmentation\<close>

lemma numbered_split_single:
  "numbered_split ps refs_text [] = []
   \<or> (\<exists>p\<in>set ps. re_search p refs_text \<noteq> None
         \<and> numbered_split ps refs_text [] = split_with p refs_text [])"
  by (induction ps) (auto simp: Let_def)

text \<open>
  Claim C3, amended. The numbering grammars need a line break before each marker. The
  input "[1] A. [2] B. [3] C." has none: no grammar is found and line splitting gives
  one entry, the whole input. With each marker at the start of a line the \<open>[n]\<close> grammar
  is used and the entries are "A.", "B.", "C." in order (all three are then dropped by
  the length filter when the references are built). In every call the entries are
  either those of line splitting or the splits of one single grammar that was found.
\<close>

theorem segment_single_grammar:
  "map (\<lambda>p. re_search p ''[1] A. [2] B. [3] C.'') ref_patterns = [None, None, None]
   \<and> segment ''[1] A. [2] B. [3] C.'' = [''[1] A. [2] B. [3] C.'']
   \<and> segment (CHR 0x0A # ''[1] A.'' @ CHR 0x0A # ''[2] B.'' @ CHR 0x0A # ''[3] C.'')
       = [''A.'', ''B.'', ''C.'']
   \<and> split_with (numbered_marker ''['' '']'' False)
         (CHR 0x0A # ''[1] A.'' @ CHR 0x0A # ''[2] B.'' @ CHR 0x0A # ''[3] C.'') []
       = [''A.'', ''B.'', ''C.'']
   \<and> parse_references (CHR 0x0A # ''[1] A.'' @ CHR 0x0A # ''[2] B.'' @ CHR 0x0A # ''[3] C.'')
       = []
   \<and> (segment refs_text = line_split (py_split (CHR 0x0A) refs_text) [] []
        \<or> (\<exists>p\<in>set ref_patterns. re_search p refs_text \<noteq> None
              \<and> segment refs_text = split_with p refs_text []))"
proof -
  have 1: "map (\<lambda>p. re_search p ''[1] A. [2] B. [3] C.'') ref_patterns = [None, None, None]"
    by code_simp
  have 2: "segment ''[1] A. [2] B. [3] C.'' = [''[1] A. [2] B. [3] C.'']"
    by code_simp
  have 3: "segment (CHR 0x0A # ''[1] A.'' @ CHR 0x0A # ''[2] B.'' @ CHR 0x0A # ''[3] C.'')
       = [''A.'', ''B.'', ''C.'']"
    by code_simp
  have 4: "split_with (numbered_marker ''['' '']'' False)
         (CHR 0x0A # ''[1] A.'' @ CHR 0x0A # ''[2] B.'' @ CHR 0x0A # ''[3] C.'') []
       = [''A.'', ''B.'', ''C.'']"
    by code_simp
  have 5: "parse_references
       (CHR 0x0A # ''[1] A.'' @ CHR 0x0A # ''[2] B.'' @ CHR 0x0A # ''[3] C.'') = []"
    by code_simp
  have 6: "segment refs_text = line_split (py_split (CHR 0x0A) refs_text) [] []
        \<or> (\<exists>p\<in>set ref_patterns. re_search p refs_text \<noteq> None
              \<and> segment refs_text = split_with p refs_text [])"
    using numbered_split_single [of ref_patterns refs_text]
    by (auto simp: segment_def Let_def)
  from 1 2 3 4 5 6 show ?thesis by blast
qed

text \<open>
  The claim as stated fails on its own input: the entries are not "A.", "B.", "C.",
  and no reference is built.
\<close>

theorem segment_inline_markers_counterexample:
  "segment ''[1] A. [2] B. [3] C.'' \<noteq> [''A.'', ''B.'', ''C.'']
   \<and> parse_references ''[1] A. [2] B. [3] C.'' = []"
  by code_simp

section \<open>Properties of URL validation\<close>

lemma check_content_match_is_accessible:
  "check_content_match f resp (ref\<lparr>is_accessible := b\<rparr>) = check_content_match f resp ref"
  by (simp add: check_content_match_def Let_def split: option.splits)

lemma classify_is_accessible:
  "classify v (ref\<lparr>is_accessible := b\<rparr>) = classify v ref"
  by (intro ext)
    (simp add: classify_def check_content_match_is_accessible split: outcome.splits)

lemma check_url_raises:
  "probe_error v i u = Some e \<Longrightarrow> check_url v i u st = Inl e"
  by (cases st)
    (auto simp: probe_error_def check_url_def split: option.splits outcome.splits)

lemma check_url_classify:
  assumes "probe_error v i u = None"
  shows "\<exists>r. classify v ref i u = Some r \<and>
           check_url v i u (res, ref) =
             Inr (case r of
                    Accessible m \<Rightarrow>
                      (res\<lparr>accessible_urls := accessible_urls res @ [u],
                           match_results := match_results res @ [m]\<rparr>,
                       ref\<lparr>is_accessible := True\<rparr>)
                  | Inaccessible x \<Rightarrow>
                      (res\<lparr>inaccessible_urls := inaccessible_urls res @ [x]\<rparr>, ref))"
  using assms
  by (auto simp: probe_error_def check_url_def classify_def Let_def
      check_content_match_is_accessible split: option.splits outcome.splits)

lemma classify_url:
  "classify v ref k u = Some (Accessible m) \<Longrightarrow> mr_url m = u"
  "classify v ref k u = Some (Inaccessible x) \<Longrightarrow> iu_url x = u"
  by (auto simp: classify_def content_match.extend_def split: outcome.splits if_splits)

text \<open>
  The loop over \<open>urls\<close> handles the URLs in list order up to the first probe that raises
  an exception no handler catches: the three lists receive the records of the URLs
  probed before it, and the exception, if any, is the one of that probe.
\<close>

lemma check_urls_classify:
  "check_urls v i us (res, ref) =
     (let es = enumerate i us;
          probed = takeWhile (\<lambda>(k, u). probe_error v k u = None) es;
          cs = map (\<lambda>(k, u). classify v ref k u) probed
      in (case drop (length probed) es of [] \<Rightarrow> None | (k, u) # _ \<Rightarrow> probe_error v k u,
          res\<lparr>accessible_urls := accessible_urls res @ [mr_url m. Some (Accessible m) \<leftarrow> cs],
              inaccessible_urls := inaccessible_urls res @ [x. Some (Inaccessible x) \<leftarrow> cs],
              match_results := match_results res @ [m. Some (Accessible m) \<leftarrow> cs]\<rparr>,
          if [m. Some (Accessible m) \<leftarrow> cs] = [] then ref else ref\<lparr>is_accessible := True\<rparr>))"
proof (induction us arbitrary: i res ref)
  case Nil
  then show ?case by simp
next
  case (Cons u us)
  show ?case
  proof (cases "probe_error v i u")
    case (Some e)
    then show ?thesis by (simp add: check_url_raises)
  next
    case None
    from check_url_classify [OF None, of ref res] obtain r
      where r: "classify v ref i u = Some r"
        and c: "check_url v i u (res, ref) =
             Inr (case r of
                    Accessible m \<Rightarrow>
                      (res\<lparr>accessible_urls := accessible_urls res @ [u],
                           match_results := match_results res @ [m]\<rparr>,
                       ref\<lparr>is_accessible := True\<rparr>)
                  | Inaccessible x \<Rightarrow>
                      (res\<lparr>inaccessible_urls := inaccessible_urls res @ [x]\<rparr>, ref))"
      by blast
    show ?thesis
    proof (cases r)
      case (Accessible m)
      then show ?thesis
        using Cons [of "Suc i"] None r c classify_url(1) [of v ref i u m]
        by (simp add: Let_def classify_is_accessible)
    next
      case (Inaccessible x)
      then show ?thesis
        using Cons [of "Suc i"] None r c
        by (simp add: Let_def)
    qed
  qed
qed


lemma check_urls_error:
  "fst (check_urls v i us st) = None
   \<longleftrightarrow> (\<forall>(k, u)\<in>set (enumerate i us). probe_error v k u = None)"
proof (induction us arbitrary: i st)
  case Nil
  then show ?case by simp
next
  case (Cons u us)
  obtain res ref where st: "st = (res, ref)" by (cases st)
  show ?case
  proof (cases "probe_error v i u")
    case (Some e)
    then show ?thesis by (simp add: check_url_raises)
  next
    case None
    from check_url_classify [OF None, of ref res] obtain st'
      where "check_url v i u st = Inr st'" unfolding st by blast
    then show ?thesis using Cons [of "Suc i" st'] None by simp
  qed
qed

text \<open>
  A check whose loop is ended by an exception returns nothing and stores no URL-check
  result; a check returns its result record exactly when no probe raises.
\<close>

lemma check_reference_aborted:
  assumes "\<not> (\<forall>(k, u)\<in>set (enumerate 0 (urls ref)). probe_error v k u = None)"
  shows "\<exists>e. fst (check_reference v ref) = Inl e"
    and "url_check_results (snd (check_reference v ref)) = url_check_results ref"
proof -
  let ?r0 = "\<lparr>accessible_urls = [], inaccessible_urls = [], match_results = []\<rparr>"
  obtain err res ref1 where c: "check_urls v 0 (urls ref) (?r0, ref) = (err, res, ref1)"
    by (cases "check_urls v 0 (urls ref) (?r0, ref)")
  with assms check_urls_error [of v 0 "urls ref" "(?r0, ref)"] obtain e where e: "err = Some e"
    by (cases err) auto
  have "url_check_results ref1 = url_check_results ref"
    using c unfolding check_urls_classify by (auto simp: Let_def split: if_splits)
  with c e show "\<exists>e. fst (check_reference v ref) = Inl e"
    and "url_check_results (snd (check_reference v ref)) = url_check_results ref"
    by (simp_all add: check_reference_def)
qed

lemma check_reference_completed:
  assumes "check_reference v ref = (Inr res, ref')"
  defines "cs \<equiv> map (\<lambda>(k, u). classify v ref k u) (enumerate 0 (urls ref))"
  shows "\<forall>(k, u)\<in>set (enumerate 0 (urls ref)). probe_error v k u = None"
    and "res = \<lparr>accessible_urls = [mr_url m. Some (Accessible m) \<leftarrow> cs],
                inaccessible_urls = [x. Some (Inaccessible x) \<leftarrow> cs],
                match_results = [m. Some (Accessible m) \<leftarrow> cs]\<rparr>"
    and "ref' =
       (let ref1 = (if [m. Some (Accessible m) \<leftarrow> cs] = [] then ref
                    else ref\<lparr>is_accessible := True\<rparr>);
            ref2 = (if urls ref = [] \<and> enable_search v
                    then ref1\<lparr>search_results := Some (search_reference_online v ref1)\<rparr>
                    else ref1)
        in ref2\<lparr>url_check_results := Some res\<rparr>)"
proof -
  let ?r0 = "\<lparr>accessible_urls = [], inaccessible_urls = [], match_results = []\<rparr>"
  let ?P = "\<lambda>(k, u). probe_error v k u = None"
  let ?es = "enumerate 0 (urls ref)"
  obtain err res1 ref1 where c: "check_urls v 0 (urls ref) (?r0, ref) = (err, res1, ref1)"
    by (cases "check_urls v 0 (urls ref) (?r0, ref)")
  with assms(1) have err: "err = None"
    by (cases err) (simp_all add: check_reference_def)
  with c check_urls_error [of v 0 "urls ref" "(?r0, ref)"]
  show all: "\<forall>(k, u)\<in>set ?es. probe_error v k u = None" by simp
  then have tw: "takeWhile ?P ?es = ?es"
    by (simp add: takeWhile_eq_all_conv)
  from c have r1: "res1 = \<lparr>accessible_urls = [mr_url m. Some (Accessible m) \<leftarrow> cs],
                inaccessible_urls = [x. Some (Inaccessible x) \<leftarrow> cs],
                match_results = [m. Some (Accessible m) \<leftarrow> cs]\<rparr>"
    and r2: "ref1 = (if [m. Some (Accessible m) \<leftarrow> cs] = [] then ref
                     else ref\<lparr>is_accessible := True\<rparr>)"
    unfolding check_urls_classify Let_def tw cs_def by simp_all
  from c err have "check_reference v ref = (Inr res1, (if urls ref1 = [] \<and> enable_search v
                   then ref1\<lparr>search_results := Some (search_reference_online v ref1)\<rparr>
                   else ref1)\<lparr>url_check_results := Some res1\<rparr>)"
    by (simp add: check_reference_def Let_def)
  with assms(1) have "res = res1"
    and r': "ref' = (if urls ref1 = [] \<and> enable_search v
                   then ref1\<lparr>search_results := Some (search_reference_online v ref1)\<rparr>
                   else ref1)\<lparr>url_check_results := Some res1\<rparr>"
    by auto
  then show "res = \<lparr>accessible_urls = [mr_url m. Some (Accessible m) \<leftarrow> cs],
                inaccessible_urls = [x. Some (Inaccessible x) \<leftarrow> cs],
                match_results = [m. Some (Accessible m) \<leftarrow> cs]\<rparr>"
    using r1 by simp
  have "urls ref1 = urls ref" using r2 by simp
  then show "ref' =
       (let ref1 = (if [m. Some (Accessible m) \<leftarrow> cs] = [] then ref
                    else ref\<lparr>is_accessible := True\<rparr>);
            ref2 = (if urls ref = [] \<and> enable_search v
                    then ref1\<lparr>search_results := Some (search_reference_online v ref1)\<rparr>
                    else ref1)
        in ref2\<lparr>url_check_results := Some res\<rparr>)"
    using r' r2 \<open>res = res1\<close> by (simp add: Let_def)
qed

lemma check_reference_completes:
  assumes "\<forall>(k, u)\<in>set (enumerate 0 (urls ref)). probe_error v k u = None"
  shows "\<exists>res ref'. check_reference v ref = (Inr res, ref')"
proof -
  let ?r0 = "\<lparr>accessible_urls = [], inaccessible_urls = [], match_results = []\<rparr>"
  obtain err res1 ref1 where c: "check_urls v 0 (urls ref) (?r0, ref) = (err, res1, ref1)"
    by (cases "check_urls v 0 (urls ref) (?r0, ref)")
  with assms check_urls_error [of v 0 "urls ref" "(?r0, ref)"] have "err = None" by simp
  with c show ?thesis by (simp add: check_reference_def Let_def)
qed


lemma classify_accessible:
  "accessible_outcome (get v k u) \<Longrightarrow>
     \<exists>m. classify v ref k u = Some (Accessible m) \<and> mr_url m = u"
  by (auto simp: classify_def accessible_outcome_def content_match.extend_def
      split: outcome.splits)

lemma classify_inaccessible:
  "\<not> accessible_outcome (get v k u) \<Longrightarrow> probe_error v k u = None \<Longrightarrow>
     \<exists>x. classify v ref k u = Some (Inaccessible x) \<and> iu_url x = u"
  by (auto simp: classify_def accessible_outcome_def probe_error_def
      split: outcome.splits option.splits)

lemma classify_partition:
  fixes v :: validator and ref :: reference and es :: "(nat \<times> string) list"
  defines "ok \<equiv> \<lambda>(k, u). accessible_outcome (get v k u)"
  defines "cs \<equiv> map (\<lambda>(k, u). classify v ref k u) es"
  assumes "\<forall>(k, u)\<in>set es. probe_error v k u = None"
  shows "[mr_url m. Some (Accessible m) \<leftarrow> cs] = map snd (filter ok es)"
    and "map iu_url [x. Some (Inaccessible x) \<leftarrow> cs] = map snd (filter (\<lambda>e. \<not> ok e) es)"
    and "map mr_url [m. Some (Accessible m) \<leftarrow> cs] = map snd (filter ok es)"
  using assms(3) unfolding ok_def cs_def
proof (induction es)
  case Nil
  {
    case 1 show ?case by simp
  next
    case 2 show ?case by simp
  next
    case 3 show ?case by simp
  }
next
  case (Cons e es)
  obtain k u where e: "e = (k, u)" by (cases e)
  {
    case 1
    then show ?case
      using Cons(1) classify_accessible [of v k u ref] classify_inaccessible [of v k u ref]
      by (cases "accessible_outcome (get v k u)") (auto simp: e)
  next
    case 2
    then show ?case
      using Cons(2) classify_accessible [of v k u ref] classify_inaccessible [of v k u ref]
      by (cases "accessible_outcome (get v k u)") (auto simp: e)
  next
    case 3
    then show ?case
      using Cons(3) classify_accessible [of v k u ref] classify_inaccessible [of v k u ref]
      by (cases "accessible_outcome (get v k u)") (auto simp: e)
  }
qed

text \<open>
  Whenever a check returns, every URL of \<open>urls\<close>, in list order, is recorded in exactly
  one of the two lists, with one match result per accessible URL, and the record is
  stored on the reference.
\<close>

lemma completed_check_partition:
  assumes "check_reference v ref = (Inr res, ref')"
  defines "probes \<equiv> enumerate 0 (urls ref)"
  defines "ok \<equiv> \<lambda>(k, u). accessible_outcome (get v k u)"
  shows "accessible_urls res = map snd (filter ok probes)"
    and "map iu_url (inaccessible_urls res) = map snd (filter (\<lambda>e. \<not> ok e) probes)"
    and "map mr_url (match_results res) = accessible_urls res"
    and "length (accessible_urls res) + length (inaccessible_urls res) = length (urls ref)"
    and "url_check_results ref' = Some res"
    and "urls ref' = urls ref"
proof -
  let ?cs = "map (\<lambda>(k, u). classify v ref k u) probes"
  note c = check_reference_completed [OF assms(1)]
  note p = classify_partition [OF c(1), of ref, folded probes_def ok_def]
  have r: "accessible_urls res = [mr_url m. Some (Accessible m) \<leftarrow> ?cs]"
    "inaccessible_urls res = [x. Some (Inaccessible x) \<leftarrow> ?cs]"
    "match_results res = [m. Some (Accessible m) \<leftarrow> ?cs]"
    by (subst c(2), simp add: probes_def)+
  show a: "accessible_urls res = map snd (filter ok probes)"
    and i: "map iu_url (inaccessible_urls res) = map snd (filter (\<lambda>e. \<not> ok e) probes)"
    and "map mr_url (match_results res) = accessible_urls res"
    unfolding r using p by simp_all
  have "length (map snd (filter ok probes)) + length (map snd (filter (\<lambda>e. \<not> ok e) probes))
        = length probes"
    using sum_length_filter_compl [of ok probes] by simp
  then show "length (accessible_urls res) + length (inaccessible_urls res) = length (urls ref)"
    unfolding a [symmetric] i [symmetric] by (simp add: probes_def)
  show "url_check_results ref' = Some res" "urls ref' = urls ref"
    by (subst c(3), simp add: Let_def)+
qed


lemma in_accessible_records:
  "Some (Accessible m) \<in> set cs \<Longrightarrow> m \<in> set [m. Some (Accessible m) \<leftarrow> cs]"
  by (induction cs) (auto split: url_record.splits option.splits)

lemma in_inaccessible_records:
  "Some (Inaccessible x) \<in> set cs \<Longrightarrow> x \<in> set [x. Some (Inaccessible x) \<leftarrow> cs]"
  by (induction cs) (auto split: url_record.splits option.splits)

text \<open>
  Whenever a check returns, the three result lists are those of the classification of
  every URL, in list order, and no probe has raised anything but a timeout or a
  request exception.
\<close>

lemma completed_check_classification:
  assumes "check_reference v ref = (Inr res, ref')"
  defines "cs \<equiv> map (\<lambda>(k, u). classify v ref k u) (enumerate 0 (urls ref))"
  shows "match_results res = [m. Some (Accessible m) \<leftarrow> cs]"
    and "accessible_urls res = map mr_url (match_results res)"
    and "inaccessible_urls res = [x. Some (Inaccessible x) \<leftarrow> cs]"
    and "\<forall>k<length (urls ref).
           (case get v k (urls ref ! k) of
              Response resp \<Rightarrow>
                if 200 \<le> status_code resp \<and> status_code resp < 300 then
                  urls ref ! k \<in> set (accessible_urls res)
                  \<and> (\<exists>m\<in>set (match_results res).
                        mr_url m = urls ref ! k \<and> mr_final_url m = url resp
                        \<and> title_match m = title_match (check_content_match (fz v) resp ref)
                        \<and> authors_found m = authors_found (check_content_match (fz v) resp ref)
                        \<and> author_matches m
                            = author_matches (check_content_match (fz v) resp ref))
                else \<lparr>iu_url = urls ref ! k, iu_status_code = Some (status_code resp),
                       iu_reason = ''HTTP '' @ str_int (status_code resp)\<rparr>
                     \<in> set (inaccessible_urls res)
            | Timeout \<Rightarrow>
                \<lparr>iu_url = urls ref ! k, iu_status_code = None, iu_reason = ''Timeout''\<rparr>
                \<in> set (inaccessible_urls res)
            | RequestException e \<Rightarrow>
                \<lparr>iu_url = urls ref ! k, iu_status_code = None, iu_reason = e\<rparr>
                \<in> set (inaccessible_urls res)
            | OtherException e \<Rightarrow> False)"
proof -
  note c = check_reference_completed [OF assms(1), folded cs_def]
  show m: "match_results res = [m. Some (Accessible m) \<leftarrow> cs]"
    and i: "inaccessible_urls res = [x. Some (Inaccessible x) \<leftarrow> cs]"
    by (subst c(2), simp)+
  show a: "accessible_urls res = map mr_url (match_results res)"
    using completed_check_partition(3) [OF assms(1)] by simp
  show "\<forall>k<length (urls ref).
           (case get v k (urls ref ! k) of
              Response resp \<Rightarrow>
                if 200 \<le> status_code resp \<and> status_code resp < 300 then
                  urls ref ! k \<in> set (accessible_urls res)
                  \<and> (\<exists>m\<in>set (match_results res).
                        mr_url m = urls ref ! k \<and> mr_final_url m = url resp
                        \<and> title_match m = title_match (check_content_match (fz v) resp ref)
                        \<and> authors_found m = authors_found (check_content_match (fz v) resp ref)
                        \<and> author_matches m
                            = author_matches (check_content_match (fz v) resp ref))
                else \<lparr>iu_url = urls ref ! k, iu_status_code = Some (status_code resp),
                       iu_reason = ''HTTP '' @ str_int (status_code resp)\<rparr>
                     \<in> set (inaccessible_urls res)
            | Timeout \<Rightarrow>
                \<lparr>iu_url = urls ref ! k, iu_status_code = None, iu_reason = ''Timeout''\<rparr>
                \<in> set (inaccessible_urls res)
            | RequestException e \<Rightarrow>
                \<lparr>iu_url = urls ref ! k, iu_status_code = None, iu_reason = e\<rparr>
                \<in> set (inaccessible_urls res)
            | OtherException e \<Rightarrow> False)"
  proof (intro allI impI)
    fix k
    assume k: "k < length (urls ref)"
    let ?u = "urls ref ! k"
    have mem: "(k, ?u) \<in> set (enumerate 0 (urls ref))"
      using k by (simp add: in_set_enumerate_eq)
    then have cm: "classify v ref k ?u \<in> set cs"
      unfolding cs_def by force
    from c(1) mem have pe: "probe_error v k ?u = None" by blast
    show "(case get v k ?u of
              Response resp \<Rightarrow>
                if 200 \<le> status_code resp \<and> status_code resp < 300 then
                  ?u \<in> set (accessible_urls res)
                  \<and> (\<exists>m\<in>set (match_results res).
                        mr_url m = ?u \<and> mr_final_url m = url resp
                        \<and> title_match m = title_match (check_content_match (fz v) resp ref)
                        \<and> authors_found m = authors_found (check_content_match (fz v) resp ref)
                        \<and> author_matches m
                            = author_matches (check_content_match (fz v) resp ref))
                else \<lparr>iu_url = ?u, iu_status_code = Some (status_code resp),
                       iu_reason = ''HTTP '' @ str_int (status_code resp)\<rparr>
                     \<in> set (inaccessible_urls res)
            | Timeout \<Rightarrow>
                \<lparr>iu_url = ?u, iu_status_code = None, iu_reason = ''Timeout''\<rparr>
                \<in> set (inaccessible_urls res)
            | RequestException e \<Rightarrow>
                \<lparr>iu_url = ?u, iu_status_code = None, iu_reason = e\<rparr>
                \<in> set (inaccessible_urls res)
            | OtherException e \<Rightarrow> False)"
    proof (cases "get v k ?u")
      case (Response resp)
      show ?thesis
      proof (cases "200 \<le> status_code resp \<and> status_code resp < 300")
        case True
        let ?m = "content_match.extend (check_content_match (fz v) resp ref)
                    \<lparr>mr_url = ?u, mr_final_url = url resp\<rparr>"
        have "classify v ref k ?u = Some (Accessible ?m)"
          using Response True by (simp add: classify_def)
        with cm have "?m \<in> set (match_results res)"
          unfolding m by (simp add: in_accessible_records)
        moreover from this have "mr_url ?m \<in> set (accessible_urls res)"
          unfolding a by simp
        moreover have "mr_url ?m = ?u" "mr_final_url ?m = url resp"
          "title_match ?m = title_match (check_content_match (fz v) resp ref)"
          "authors_found ?m = authors_found (check_content_match (fz v) resp ref)"
          "author_matches ?m = author_matches (check_content_match (fz v) resp ref)"
          by (simp_all add: content_match.extend_def)
        ultimately show ?thesis using Response True by auto
      next
        case False
        then have "classify v ref k ?u =
            Some (Inaccessible \<lparr>iu_url = ?u, iu_status_code = Some (status_code resp),
                          iu_reason = ''HTTP '' @ str_int (status_code resp)\<rparr>)"
          using Response by (simp add: classify_def)
        with cm have "\<lparr>iu_url = ?u, iu_status_code = Some (status_code resp),
                          iu_reason = ''HTTP '' @ str_int (status_code resp)\<rparr>
                       \<in> set (inaccessible_urls res)"
          unfolding i by (simp add: in_inaccessible_records)
        then show ?thesis using Response False by auto
      qed
    next
      case Timeout
      then have "classify v ref k ?u =
          Some (Inaccessible \<lparr>iu_url = ?u, iu_status_code = None, iu_reason = ''Timeout''\<rparr>)"
        by (simp add: classify_def)
      with cm show ?thesis using Timeout
        unfolding i by (simp add: in_inaccessible_records)
    next
      case (RequestException e)
      then have "classify v ref k ?u =
          Some (Inaccessible \<lparr>iu_url = ?u, iu_status_code = None, iu_reason = e\<rparr>)"
        by (simp add: classify_def)
      with cm show ?thesis using RequestException
        unfolding i by (simp add: in_inaccessible_records)
    next
      case (OtherException e)
      with pe show ?thesis by (simp add: probe_error_def split: option.splits)
    qed
  qed
qed

lemma fresh_not_accessible:
  "\<not> is_accessible (parse_reference_details (Reference entry))"
  by (simp add: parse_reference_details_def extract_authors_and_title_frame
      extract_year_frame extract_urls_frame extract_doi_frame Reference_def)

lemma check_url_perform_search:
  "check_url (v\<lparr>perform_search := ps\<rparr>) i u st = check_url v i u st"
  by (simp add: check_url_def Let_def split: prod.splits option.splits outcome.splits)

lemma check_urls_perform_search:
  "check_urls (v\<lparr>perform_search := ps\<rparr>) i us st = check_urls v i us st"
  by (induction us arbitrary: i st) (simp_all add: check_url_perform_search split: sum.splits)

lemma check_urls_frame:
  "check_urls v i us (res, ref) = (err, res', ref') \<Longrightarrow>
     urls ref' = urls ref \<and> search_results ref' = search_results ref
     \<and> url_check_results ref' = url_check_results ref"
  unfolding check_urls_classify by (auto simp: Let_def split: if_splits)

text \<open>
  Claim C7. For a reference that is not yet marked accessible, as every freshly
  extracted one is, after one check has completed \<open>is_accessible\<close> is true if and only
  if \<open>accessible_urls\<close> of the returned and stored result is not empty; in particular
  an empty \<open>urls\<close> list or a list whose probes are all inaccessible leaves it false.
\<close>

theorem is_accessible_iff_accessible_urls:
  assumes "\<not> is_accessible ref" and "check_reference v ref = (Inr res, ref')"
  shows "is_accessible ref' = (accessible_urls res \<noteq> [])
         \<and> url_check_results ref' = Some res
         \<and> (urls ref = [] \<longrightarrow> \<not> is_accessible ref')
         \<and> ((\<forall>k<length (urls ref). \<not> accessible_outcome (get v k (urls ref ! k)))
              \<longrightarrow> \<not> is_accessible ref')"
proof -
  let ?es = "enumerate 0 (urls ref)"
  let ?cs = "map (\<lambda>(k, u). classify v ref k u) ?es"
  let ?ok = "\<lambda>(k, u). accessible_outcome (get v k u)"
  note c = check_reference_completed [OF assms(2)]
  note p = completed_check_partition [OF assms(2)]
  note q = completed_check_classification [OF assms(2)]
  have "is_accessible ref' = ([m. Some (Accessible m) \<leftarrow> ?cs] \<noteq> [])"
    by (subst c(3)) (simp add: Let_def assms(1))
  then have iff: "is_accessible ref' = (accessible_urls res \<noteq> [])"
    unfolding q(1) [symmetric] q(2) by simp
  have n: "accessible_urls res = []"
    if "\<forall>k<length (urls ref). \<not> accessible_outcome (get v k (urls ref ! k))"
  proof -
    have "filter ?ok ?es = []"
      using that by (auto simp: filter_empty_conv in_set_enumerate_eq)
    then show ?thesis using p(1) by simp
  qed
  have e: "accessible_urls res = []" if "urls ref = []"
    using p(1) that by simp
  show ?thesis
    using iff p(5) n e by blast
qed

text \<open>
  Claim C8, amended. For a reference whose \<open>urls\<close> list is empty, with search enabled,
  a check runs the search fallback and stores its output as \<open>search_results\<close>; the
  URL-check result is returned and stored as well, as the record of three empty lists.
  With a non-empty \<open>urls\<close> list (or with search disabled) \<open>search_results\<close> is left as
  it was, and with a non-empty list the outcome of the check does not depend on the
  search collaborator at all.
\<close>

theorem search_only_without_urls:
  "(urls ref = [] \<and> enable_search v \<longrightarrow>
      fst (check_reference v ref)
        = Inr \<lparr>accessible_urls = [], inaccessible_urls = [], match_results = []\<rparr>
      \<and> search_results (snd (check_reference v ref)) = Some (search_reference_online v ref)
      \<and> url_check_results (snd (check_reference v ref))
          = Some \<lparr>accessible_urls = [], inaccessible_urls = [], match_results = []\<rparr>)
   \<and> (urls ref \<noteq> [] \<or> \<not> enable_search v \<longrightarrow>
        search_results (snd (check_reference v ref)) = search_results ref)
   \<and> (urls ref \<noteq> [] \<longrightarrow>
        check_reference (v\<lparr>perform_search := ps\<rparr>) ref
        = check_reference v ref)"
proof -
  let ?r0 = "\<lparr>accessible_urls = [], inaccessible_urls = [], match_results = []\<rparr>"
  obtain err res1 ref1 where c: "check_urls v 0 (urls ref) (?r0, ref) = (err, res1, ref1)"
    by (cases "check_urls v 0 (urls ref) (?r0, ref)")
  note f = check_urls_frame [OF c]
  have 1: "fst (check_reference v ref) = Inr ?r0
      \<and> search_results (snd (check_reference v ref)) = Some (search_reference_online v ref)
      \<and> url_check_results (snd (check_reference v ref)) = Some ?r0"
    if "urls ref = []" "enable_search v"
    using that by (simp add: check_reference_def Let_def)
  have 2: "search_results (snd (check_reference v ref)) = search_results ref"
    if "urls ref \<noteq> [] \<or> \<not> enable_search v"
    using that c f by (cases err) (auto simp: check_reference_def Let_def)
  have 3: "check_reference (v\<lparr>perform_search := ps\<rparr>) ref = check_reference v ref"
    if "urls ref \<noteq> []"
    using that c f by (cases err) (simp_all add: check_reference_def check_urls_perform_search)
  show ?thesis using 1 2 3 by blast
qed


theorem is_accessible_iff_accessible_urls_witness:
  "check_reference sample_validator (sample_reference [''http://ok.org''])
     = (Inr \<lparr>accessible_urls = [''http://ok.org''], inaccessible_urls = [],
             match_results = [\<lparr>title_match = 0, authors_found = 0, author_matches = [],
                                mr_url = ''http://ok.org'',
                                mr_final_url = ''https://ok.org/final''\<rparr>]\<rparr>,
        snd (check_reference sample_validator (sample_reference [''http://ok.org''])))
   \<and> is_accessible (snd (check_reference sample_validator (sample_reference [''http://ok.org''])))
   \<and> check_reference sample_validator (sample_reference [''http://slow.org''])
     = (Inr \<lparr>accessible_urls = [],
             inaccessible_urls = [\<lparr>iu_url = ''http://slow.org'', iu_status_code = None,
                                    iu_reason = ''Timeout''\<rparr>],
             match_results = []\<rparr>,
        snd (check_reference sample_validator (sample_reference [''http://slow.org''])))
   \<and> \<not> is_accessible (snd (check_reference sample_validator
           (sample_reference [''http://slow.org''])))"
proof -
  have h: "\<not> is_accessible (sample_reference us)" for us
    by (simp add: sample_reference_def Reference_def)
  have a: "check_reference sample_validator (sample_reference [''http://ok.org''])
     = (Inr \<lparr>accessible_urls = [''http://ok.org''], inaccessible_urls = [],
             match_results = [\<lparr>title_match = 0, authors_found = 0, author_matches = [],
                                mr_url = ''http://ok.org'',
                                mr_final_url = ''https://ok.org/final''\<rparr>]\<rparr>,
        snd (check_reference sample_validator (sample_reference [''http://ok.org''])))"
    and b: "check_reference sample_validator (sample_reference [''http://slow.org''])
     = (Inr \<lparr>accessible_urls = [],
             inaccessible_urls = [\<lparr>iu_url = ''http://slow.org'', iu_status_code = None,
                                    iu_reason = ''Timeout''\<rparr>],
             match_results = []\<rparr>,
        snd (check_reference sample_validator (sample_reference [''http://slow.org''])))"
    by code_simp+
  from is_accessible_iff_accessible_urls [OF h a] is_accessible_iff_accessible_urls [OF h b] a b
  show ?thesis
    by simp
qed

theorem search_only_without_urls_witness:
  "search_results (snd (check_reference sample_validator (sample_reference [])))
     = Some (Performed ''Deep Learning Survey Smith, J.''
          [\<lparr>sr_rank = 1, sr_url = ''http://hit.org'', sr_title = ''Deep Learning Survey'',
            sr_snippet = ''A review by Smith'', sr_match_score = 90\<rparr>]
          (Some \<lparr>sr_rank = 1, sr_url = ''http://hit.org'', sr_title = ''Deep Learning Survey'',
                 sr_snippet = ''A review by Smith'', sr_match_score = 90\<rparr>))
   \<and> search_results (snd (check_reference sample_validator
        (sample_reference [''http://ok.org'']))) = None"
proof -
  have e: "enable_search sample_validator" by (simp add: sample_validator_def)
  have u: "urls (sample_reference us) = us" "search_results (sample_reference us) = None" for us
    by (simp_all add: sample_reference_def Reference_def)
  have s: "search_reference_online sample_validator (sample_reference [])
     = Performed ''Deep Learning Survey Smith, J.''
          [\<lparr>sr_rank = 1, sr_url = ''http://hit.org'', sr_title = ''Deep Learning Survey'',
            sr_snippet = ''A review by Smith'', sr_match_score = 90\<rparr>]
          (Some \<lparr>sr_rank = 1, sr_url = ''http://hit.org'', sr_title = ''Deep Learning Survey'',
                 sr_snippet = ''A review by Smith'', sr_match_score = 90\<rparr>)"
    by code_simp
  from search_only_without_urls [of "sample_reference []" sample_validator]
    search_only_without_urls [of "sample_reference [''http://ok.org'']" sample_validator]
  show ?thesis
    using e by (simp add: u s)
qed

text \<open>
  The claim as stated has the URL-check result left unset in that case; the code
  stores the empty record.
\<close>

theorem url_check_result_stored_counterexample:
  "urls (sample_reference []) = [] \<and> enable_search sample_validator
   \<and> url_check_results (snd (check_reference sample_validator (sample_reference [])))
       = Some \<lparr>accessible_urls = [], inaccessible_urls = [], match_results = []\<rparr>"
  by code_simp

text \<open>
  Claim C6. The claim has every failure of a probe recorded as an inaccessible URL,
  processing going on with the next URL. The handlers of \<open>check_reference\<close> catch
  \<open>requests.exceptions.Timeout\<close> and \<open>RequestException\<close> only. For the reference with
  the URLs \<open>http://slow.org\<close>, \<open>http://www..example.com/paper\<close> and \<open>http://ok.org\<close>,
  where the first probe times out, the second raises urllib3's \<open>LocationParseError\<close>
  (which is no \<open>RequestException\<close>) and the third would be answered with status 200:
  the check ends with that exception; the second URL gets no inaccessible record, the
  third is never probed, and the reference is left as it was before the check.
\<close>

theorem uncaught_probe_exception_ends_check:
  "let ref = sample_reference [''http://slow.org'', ''http://www..example.com/paper'',
                               ''http://ok.org''];
       (r, ref') = check_reference sample_validator ref
   in get sample_validator 0 ''http://slow.org'' = Timeout
      \<and> get sample_validator 1 ''http://www..example.com/paper''
          = OtherException ''Failed to parse: www..example.com, label empty or too long''
      \<and> accessible_outcome (get sample_validator 2 ''http://ok.org'')
      \<and> r = Inl (Raised ''Failed to parse: www..example.com, label empty or too long'')
      \<and> ref' = ref"
  by code_simp

text \<open>
  Claim C10. The claim has every URL of \<open>urls\<close> recorded in exactly one of the two
  lists and the record stored on the reference by every check. Field extraction of
  the entry \<open>See http://www..example.com/paper\<close> yields that URL; its probe raises
  urllib3's \<open>LocationParseError\<close>, which no handler of \<open>check_reference\<close> catches: the
  check returns no record, the URL is in neither list, and no URL-check result is
  stored on the reference.
\<close>

theorem check_not_total_on_extracted_url:
  "let ref = parse_reference_details (Reference ''See http://www..example.com/paper'');
       (r, ref') = check_reference sample_validator ref
   in urls ref = [''http://www..example.com/paper'']
      \<and> r = Inl (Raised ''Failed to parse: www..example.com, label empty or too long'')
      \<and> url_check_results ref' = None
      \<and> \<not> is_accessible ref'"
  by code_simp

section \<open>Properties of the search score\<close>

lemma last_name_of_error:
  "last_name_of a = Inl e \<Longrightarrow> e = IndexError"
  by (auto simp: last_name_of_def split: if_splits list.splits)

lemma author_in_snippet_total:
  "\<forall>a\<in>set as. last_name_of a \<noteq> Inl IndexError \<Longrightarrow> \<exists>b. author_in_snippet s as = Inr b"
proof (induction as)
  case Nil
  show ?case by (intro exI [of _ False]) simp
next
  case (Cons a as)
  then obtain w where "last_name_of a = Inr w"
    using last_name_of_error [of a] by (cases "last_name_of a") auto
  with Cons show ?case by auto
qed

text \<open>
  Claim C9, amended. With similarity scores within 0 and 100 and no blank name among
  the first three authors (a blank one makes the scoring raise \<open>IndexError\<close>), the
  score is the sum of the contributing components (twice the title-against-title
  similarity, the title-against-snippet similarity, 70 if the surname of one of the
  first three authors occurs in the snippet, 50 if the year occurs in the snippet)
  divided by their number, as an integer without upper clamp, and 0 when nothing
  contributes. A title similarity of 80 with a snippet similarity of 40 and no bonus
  gives 100. Whenever the title component and the author bonus both contribute, the
  snippet component contributes as well: a title similarity of 80 with an author bonus
  and no year bonus gives (230 + snippet similarity) div 3, which is at most 110.
\<close>

theorem search_score_is_mean:
  fixes f :: fuzz and h :: search_hit and ref :: reference
  defines "tm \<equiv> partial_ratio f (lower (title ref)) (lower (hit_title h))"
  defines "sm \<equiv> partial_ratio f (lower (title ref)) (lower (hit_snippet h))"
  defines "T \<equiv> title ref \<noteq> [] \<and> hit_title h \<noteq> []"
  defines "S \<equiv> title ref \<noteq> [] \<and> hit_snippet h \<noteq> []"
  defines "A \<equiv> authors ref \<noteq> [] \<and> hit_snippet h \<noteq> []
               \<and> author_in_snippet (lower (hit_snippet h)) (take 3 (authors ref)) = Inr True"
  defines "Y \<equiv> \<exists>y. year ref = Some y \<and> y \<noteq> [] \<and> hit_snippet h \<noteq> []
                   \<and> contains (hit_snippet h) y"
  defines "weighted \<equiv> (if T then 2 * tm else 0) + (if S then sm else 0)
                    + (if A then 70 else 0) + (if Y then 50 else 0)"
  defines "n \<equiv> (if T then 1 else 0) + (if S then 1 else 0)
                + (if A then 1 else 0) + (if Y then 1 else (0::int))"
  assumes range: "\<And>a b. 0 \<le> partial_ratio f a b \<and> partial_ratio f a b \<le> 100"
    and named: "\<forall>a\<in>set (take 3 (authors ref)). last_name_of a \<noteq> Inl IndexError"
  shows "\<exists>score. check_search_result_match f h ref = Inr score
           \<and> score = (if n = 0 then 0 else weighted div n)
           \<and> (T \<and> S \<and> \<not> A \<and> \<not> Y \<and> tm = 80 \<and> sm = 40 \<longrightarrow> score = 100)
           \<and> (T \<and> A \<and> \<not> Y \<and> tm = 80 \<longrightarrow> S \<and> score = (230 + sm) div 3 \<and> score \<le> 110)"
proof -
  from author_in_snippet_total [OF named]
  obtain b where b: "author_in_snippet (lower (hit_snippet h)) (take 3 (authors ref)) = Inr b"
    by blast
  have r: "0 \<le> tm" "tm \<le> 100" "0 \<le> sm" "sm \<le> 100"
    using range by (simp_all add: tm_def sm_def)
  have A: "A \<longleftrightarrow> authors ref \<noteq> [] \<and> hit_snippet h \<noteq> [] \<and> b"
    by (simp add: A_def b)
  have e: "check_search_result_match f h ref = Inr (if n = 0 then 0 else weighted div n)"
  proof (cases "year ref")
    case None
    then have Y: "\<not> Y" by (simp add: Y_def)
    show ?thesis
      using r None Y b
      by (cases T; cases S; cases b)
        (auto simp: check_search_result_match_def Let_def int_of_quotient_def weighted_def n_def
            A T_def S_def tm_def [symmetric] sm_def [symmetric])
  next
    case (Some y)
    then have Y: "Y \<longleftrightarrow> y \<noteq> [] \<and> hit_snippet h \<noteq> [] \<and> contains (hit_snippet h) y"
      by (simp add: Y_def)
    show ?thesis
      using r Some b
      by (cases T; cases S; cases b; cases Y)
        (auto simp: check_search_result_match_def Let_def int_of_quotient_def weighted_def n_def
            A Y T_def S_def tm_def [symmetric] sm_def [symmetric])
  qed
  have AS: "T \<and> A \<longrightarrow> S" by (auto simp: T_def A_def S_def)
  have x1: "T \<and> S \<and> \<not> A \<and> \<not> Y \<and> tm = 80 \<and> sm = 40
            \<longrightarrow> (if n = 0 then 0 else weighted div n) = 100"
    by (auto simp: weighted_def n_def)
  have x2: "T \<and> A \<and> \<not> Y \<and> tm = 80
            \<longrightarrow> S \<and> (if n = 0 then 0 else weighted div n) = (230 + sm) div 3
                \<and> (if n = 0 then 0 else weighted div n) \<le> 110"
    using AS r by (auto simp: weighted_def n_def)
  show ?thesis using e x1 x2 by blast
qed


theorem search_score_is_mean_witness:
  "check_search_result_match sample_fuzz sample_hit (sample_reference []) = Inr 90
   \<and> check_search_result_match sample_fuzz sample_hit
        ((sample_reference [])\<lparr>authors := []\<rparr>) = Inr 100
   \<and> check_search_result_match sample_fuzz (sample_hit\<lparr>hit_snippet := []\<rparr>)
        (sample_reference []) = Inr 160"
proof -
  have r: "\<And>a b. 0 \<le> partial_ratio sample_fuzz a b \<and> partial_ratio sample_fuzz a b \<le> 100"
    by (simp add: sample_fuzz_def)
  have n1: "\<forall>a\<in>set (take 3 (authors (sample_reference []))). last_name_of a \<noteq> Inl IndexError"
    by (simp add: sample_reference_def last_name_of_def)
  have n2: "\<forall>a\<in>set (take 3 (authors ((sample_reference [])\<lparr>authors := []\<rparr>))).
              last_name_of a \<noteq> Inl IndexError"
    by simp
  have c: "check_search_result_match sample_fuzz sample_hit (sample_reference []) = Inr 90"
    "check_search_result_match sample_fuzz sample_hit
        ((sample_reference [])\<lparr>authors := []\<rparr>) = Inr 100"
    "check_search_result_match sample_fuzz (sample_hit\<lparr>hit_snippet := []\<rparr>)
        (sample_reference []) = Inr 160"
    by code_simp+
  from search_score_is_mean [OF r n1, of sample_hit] search_score_is_mean [OF r n2, of sample_hit]
  show ?thesis using c by blast
qed

text \<open>
  The claim as stated gives 115 for a title similarity of 80 with an author bonus.
  Here the title similarity is 80, the author bonus applies, the snippet similarity is
  0 and there is no year: the three components 160, 0 and 70 give 76.
\<close>

theorem score_with_author_bonus_counterexample:
  "partial_ratio (sample_fuzz\<lparr>partial_ratio := (\<lambda>a b. if b = ''deep learning survey''
                                                     then 80 else 0)\<rparr>)
     (lower (title (sample_reference []))) (lower (hit_title sample_hit)) = 80
   \<and> author_in_snippet (lower (hit_snippet sample_hit))
       (take 3 (authors (sample_reference []))) = Inr True
   \<and> year (sample_reference []) = None
   \<and> check_search_result_match
       (sample_fuzz\<lparr>partial_ratio := (\<lambda>a b. if b = ''deep learning survey'' then 80 else 0)\<rparr>)
       sample_hit (sample_reference []) = Inr 76"
  by code_simp

end
